theory Spec2Isabelle
  imports Main "HOL-Library.Multiset" "HOL-Library.Sublist" "HOL-Library.Word"
    "HOL-Library.Char_ord" "HOL-Library.List_Lexorder"
begin

section \<open>Data model of lib/extractor.go\<close>

text \<open>
  Go strings are byte sequences: \<^typ>\<open>string\<close>. Go's \<open>int\<close> is a 64-bit signed integer.
  The struct \<open>Post\<close>, field by field in declaration order; the field \<open>Id\<close> is called
  \<open>Id_post\<close> because \<open>Id\<close> is the identity relation of HOL.
\<close>

record Post =
  Id_post :: "64 word"
  PublicationId :: "64 word"
  Type :: string
  Slug :: string
  PostDate :: string
  CanonicalUrl :: string
  PreviousPostSlug :: string
  NextPostSlug :: string
  CoverImage :: string
  Description :: string
  Subtitle :: string
  WordCount :: "64 word"
  Title :: string
  BodyHTML :: string

text \<open>The zero value \<open>Post{}\<close> that every failing path of the extractor returns.\<close>

definition zeroPost :: Post where
  "zeroPost = \<lparr> Id_post = 0, PublicationId = 0, Type = [], Slug = [], PostDate = [],
     CanonicalUrl = [], PreviousPostSlug = [], NextPostSlug = [], CoverImage = [],
     Description = [], Subtitle = [], WordCount = 0, Title = [], BodyHTML = [] \<rparr>"

text \<open>
  Errors are values. \<open>UnknownFormat\<close> is \<open>fmt.Errorf("unknown format: %s", format)\<close>,
  \<open>FailedToExtractJSONString\<close> is \<open>errors.New("failed to extract JSON string")\<close>, and each
  \<open>FailedTo...\<close> constructor with an argument is the \<open>fmt.Errorf("...: %w", err)\<close> that wraps the
  error it carries. An error of a library the repository calls (the fetcher, goquery,
  encoding/json, the Markdown converter) is a \<open>LibraryError\<close> with its message, one of the
  operating system an \<open>OSError\<close>, and \<open>ContextCanceled\<close> is \<open>context.Canceled\<close>.
\<close>

datatype error =
    UnknownFormat string
  | OSError string
  | LibraryError string
  | ContextCanceled
  | FailedToExtractJSONString
  | FailedToFetchPage error
  | FailedToParseHTML error
  | FailedToExtractPostData error
  | FailedToUnescapeJSON error
  | FailedToParsePostData error

section \<open>Writing a post: \<open>contentForFormat\<close> and \<open>WriteToFile\<close>\<close>





text \<open>
  The file system the process writes to. A path is the list of its components (what
  \<open>filepath.Clean\<close> leaves between the separators), \<open>filepath.Dir\<close> drops the last one and
  \<open>filepath.Join\<close> appends. A node is a regular file with its content or a directory.

  \<open>os.MkdirAll\<close> creates the directory and every missing ancestor; it fails, creating
  nothing, when the path or one of its ancestors exists and is a regular file.
  \<open>os.WriteFile\<close> creates or truncates a regular file; it fails when the parent is not an
  existing directory or when the path is a directory.
\<close>

datatype node = File string | Directory

type_synonym path = "string list"
type_synonym filesystem = "path \<rightharpoonup> node"

definition filepath_Dir :: "path \<Rightarrow> path" where
  "filepath_Dir p = butlast p"


fun mkdirs :: "filesystem \<Rightarrow> path list \<Rightarrow> filesystem" where
  "mkdirs fs [] = fs"
| "mkdirs fs (d # ds) = mkdirs (fs(d \<mapsto> Directory)) ds"


definition os_WriteFile :: "filesystem \<Rightarrow> path \<Rightarrow> string \<Rightarrow> filesystem \<times> error option" where
  "os_WriteFile fs p content =
     (if p \<noteq> [] \<and> filepath_Dir p \<noteq> [] \<and> fs (filepath_Dir p) \<noteq> Some Directory
        then (fs, Some (OSError ''no such file or directory''))
      else if p = [] \<or> fs p = Some Directory then (fs, Some (OSError ''is a directory''))
      else (fs(p \<mapsto> File content), None))"



lemma mkdirs_other: "q \<notin> set ds \<Longrightarrow> mkdirs fs ds q = fs q"
  by (induction ds arbitrary: fs) auto





section \<open>The archive index: entries and rendering\<close>

text \<open>
  A \<open>time.Time\<close> is an instant, in nanoseconds since the Unix epoch, and the offset of its
  zone in seconds; \<open>After\<close> compares instants. \<open>time.Parse(time.RFC3339, s)\<close>, the two
  \<open>Format\<close> layouts and \<open>filepath.Rel\<close> (whose error the source discards) belong to Go's
  standard library and are parameters of the functions that call them.
\<close>

record Time =
  unixNano :: int
  zoneOffset :: int

definition After :: "Time \<Rightarrow> Time \<Rightarrow> bool" where
  "After t u = (unixNano t > unixNano u)"

record ArchiveEntry =
  Post :: Post
  FilePath :: path
  DownloadTime :: Time

record Archive =
  Entries :: "ArchiveEntry list"

definition NewArchive :: Archive where
  "NewArchive = \<lparr> Entries = [] \<rparr>"

definition NL :: string where
  "NL = [CHR 0x0A]"

definition TAB :: string where
  "TAB = [CHR 0x09]"

text \<open>The publication date shown: the formatted date when the field parses, else the field.\<close>

definition pubDate :: "(string \<Rightarrow> Time option) \<Rightarrow> (Time \<Rightarrow> string) \<Rightarrow> ArchiveEntry \<Rightarrow> string" where
  "pubDate time_Parse Format_date entry =
     (case time_Parse (PostDate (Post entry)) of
        Some parsedDate \<Rightarrow> Format_date parsedDate
      | None \<Rightarrow> PostDate (Post entry))"

text \<open>The three \<open>Sprintf\<close> calls that print a description, one per format.\<close>

definition htmlDescription :: "string \<Rightarrow> string" where
  \<open>htmlDescription description = TAB @ TAB @ ''<div class="subtitle">'' @ description @ ''</div>'' @ NL\<close>

definition mdDescription :: "string \<Rightarrow> string" where
  "mdDescription description = ''*'' @ description @ ''*'' @ NL @ NL"

definition txtDescription :: "string \<Rightarrow> string" where
  "txtDescription description = ''Description: '' @ description @ NL"

text \<open>
  The body of the loop over the entries in \<open>GenerateHTML\<close>: what one entry appends to the
  page, statement by statement.
\<close>

definition htmlEntry ::
  "(string \<Rightarrow> Time option) \<Rightarrow> (Time \<Rightarrow> string) \<Rightarrow> (Time \<Rightarrow> string) \<Rightarrow> (path \<Rightarrow> path \<Rightarrow> string)
     \<Rightarrow> path \<Rightarrow> ArchiveEntry \<Rightarrow> string"
where
  \<open>htmlEntry time_Parse Format_date Format_datetime filepath_Rel outputDir entry =
     (let relPath = filepath_Rel outputDir (FilePath entry);
          pubD = pubDate time_Parse Format_date entry;
          downloadDate = Format_datetime (DownloadTime entry);
          html1 = TAB @ ''<div class="post">'' @ NL;
          html2 = (if CoverImage (Post entry) \<noteq> []
                   then html1 @ TAB @ TAB @ ''<img src="'' @ CoverImage (Post entry)
                          @ ''" alt="Cover" class="cover-image">'' @ NL
                   else html1);
          html3 = html2 @ TAB @ TAB @ ''<h2><a href="'' @ relPath @ ''">'' @ Title (Post entry)
                    @ ''</a></h2>'' @ NL @ TAB @ TAB @ ''<div class="meta">Published: '' @ pubD
                    @ '' | Downloaded: '' @ downloadDate @ ''</div>'' @ NL;
          description0 = Subtitle (Post entry);
          description = (if description0 = [] then Description (Post entry) else description0);
          html4 = (if description \<noteq> [] then html3 @ htmlDescription description else html3)
      in html4 @ TAB @ ''</div>'' @ NL)\<close>

definition htmlHeader :: string where
  \<open>htmlHeader =
     ''<!DOCTYPE html>'' @ NL @
     ''<html lang="en">'' @ NL @
     ''<head>'' @ NL @
     TAB @ ''<meta charset="UTF-8">'' @ NL @
     TAB @ ''<meta name="viewport" content="width=device-width, initial-scale=1.0">'' @ NL @
     TAB @ ''<title>Substack Archive</title>'' @ NL @
     TAB @ ''<style>'' @ NL @
     TAB @ TAB @ ''body { font-family: Arial, sans-serif; max-width: 800px; margin: 0 auto; padding: 20px; }'' @ NL @
     TAB @ TAB @ ''h1 { color: #333; }'' @ NL @
     TAB @ TAB @ ''.post { margin-bottom: 30px; padding: 20px; border: 1px solid #eee; border-radius: 8px; }'' @ NL @
     TAB @ TAB @ ''.post h2 { margin-top: 0; }'' @ NL @
     TAB @ TAB @ ''.post h2 a { text-decoration: none; color: #ff6719; }'' @ NL @
     TAB @ TAB @ ''.post h2 a:hover { text-decoration: underline; }'' @ NL @
     TAB @ TAB @ ''.meta { color: #666; font-size: 14px; margin-bottom: 10px; }'' @ NL @
     TAB @ TAB @ ''.subtitle { color: #777; font-style: italic; margin-bottom: 10px; }'' @ NL @
     TAB @ TAB @ ''.cover-image { max-width: 200px; float: right; margin-left: 15px; }'' @ NL @
     TAB @ ''</style>'' @ NL @
     ''</head>'' @ NL @
     ''<body>'' @ NL @
     TAB @ ''<h1>Substack Archive</h1>'' @ NL\<close>

definition GenerateHTML ::
  "(string \<Rightarrow> Time option) \<Rightarrow> (Time \<Rightarrow> string) \<Rightarrow> (Time \<Rightarrow> string) \<Rightarrow> (path \<Rightarrow> path \<Rightarrow> string)
     \<Rightarrow> filesystem \<Rightarrow> Archive \<Rightarrow> path \<Rightarrow> filesystem \<times> error option"
where
  "GenerateHTML time_Parse Format_date Format_datetime filepath_Rel fs a outputDir =
     (let archivePath = outputDir @ [''index.html''];
          html = foldl (\<lambda>html entry. html @
                   htmlEntry time_Parse Format_date Format_datetime filepath_Rel outputDir entry)
                   htmlHeader (Entries a)
      in os_WriteFile fs archivePath (html @ ''</body>'' @ NL @ ''</html>''))"

text \<open>The loop body of \<open>GenerateMarkdown\<close>.\<close>

definition mdEntry ::
  "(string \<Rightarrow> Time option) \<Rightarrow> (Time \<Rightarrow> string) \<Rightarrow> (Time \<Rightarrow> string) \<Rightarrow> (path \<Rightarrow> path \<Rightarrow> string)
     \<Rightarrow> path \<Rightarrow> ArchiveEntry \<Rightarrow> string"
where
  "mdEntry time_Parse Format_date Format_datetime filepath_Rel outputDir entry =
     (let relPath = filepath_Rel outputDir (FilePath entry);
          pubD = pubDate time_Parse Format_date entry;
          downloadDate = Format_datetime (DownloadTime entry);
          content1 = ''## ['' @ Title (Post entry) @ '']('' @ relPath @ '')'' @ NL @ NL;
          content2 = content1 @ ''**Published:** '' @ pubD @ '' | **Downloaded:** '' @ downloadDate
                       @ NL @ NL;
          content3 = (if CoverImage (Post entry) \<noteq> []
                      then content2 @ ''![Cover Image]('' @ CoverImage (Post entry) @ '')'' @ NL @ NL
                      else content2);
          description0 = Subtitle (Post entry);
          description = (if description0 = [] then Description (Post entry) else description0);
          content4 = (if description \<noteq> [] then content3 @ mdDescription description else content3)
      in content4 @ ''---'' @ NL @ NL)"

definition GenerateMarkdown ::
  "(string \<Rightarrow> Time option) \<Rightarrow> (Time \<Rightarrow> string) \<Rightarrow> (Time \<Rightarrow> string) \<Rightarrow> (path \<Rightarrow> path \<Rightarrow> string)
     \<Rightarrow> filesystem \<Rightarrow> Archive \<Rightarrow> path \<Rightarrow> filesystem \<times> error option"
where
  "GenerateMarkdown time_Parse Format_date Format_datetime filepath_Rel fs a outputDir =
     (let archivePath = outputDir @ [''index.md''];
          content = foldl (\<lambda>content entry. content @
                      mdEntry time_Parse Format_date Format_datetime filepath_Rel outputDir entry)
                      (''# Substack Archive'' @ NL @ NL) (Entries a)
      in os_WriteFile fs archivePath content)"

text \<open>The loop body of \<open>GenerateText\<close>.\<close>

definition txtEntry ::
  "(string \<Rightarrow> Time option) \<Rightarrow> (Time \<Rightarrow> string) \<Rightarrow> (Time \<Rightarrow> string) \<Rightarrow> (path \<Rightarrow> path \<Rightarrow> string)
     \<Rightarrow> path \<Rightarrow> ArchiveEntry \<Rightarrow> string"
where
  "txtEntry time_Parse Format_date Format_datetime filepath_Rel outputDir entry =
     (let relPath = filepath_Rel outputDir (FilePath entry);
          pubD = pubDate time_Parse Format_date entry;
          downloadDate = Format_datetime (DownloadTime entry);
          content1 = ''Title: '' @ Title (Post entry) @ NL;
          content2 = content1 @ ''File: '' @ relPath @ NL;
          content3 = content2 @ ''Published: '' @ pubD @ NL;
          content4 = content3 @ ''Downloaded: '' @ downloadDate @ NL;
          description0 = Subtitle (Post entry);
          description = (if description0 = [] then Description (Post entry) else description0);
          content5 = (if description \<noteq> [] then content4 @ txtDescription description else content4)
      in content5 @ NL @ replicate 50 CHR ''-'' @ NL @ NL)"

definition GenerateText ::
  "(string \<Rightarrow> Time option) \<Rightarrow> (Time \<Rightarrow> string) \<Rightarrow> (Time \<Rightarrow> string) \<Rightarrow> (path \<Rightarrow> path \<Rightarrow> string)
     \<Rightarrow> filesystem \<Rightarrow> Archive \<Rightarrow> path \<Rightarrow> filesystem \<times> error option"
where
  "GenerateText time_Parse Format_date Format_datetime filepath_Rel fs a outputDir =
     (let archivePath = outputDir @ [''index.txt''];
          content = foldl (\<lambda>content entry. content @
                      txtEntry time_Parse Format_date Format_datetime filepath_Rel outputDir entry)
                      (''SUBSTACK ARCHIVE'' @ NL @ ''================'' @ NL @ NL) (Entries a)
      in os_WriteFile fs archivePath content)"


text \<open>An entry with both fields cleared: what is printed around the description.\<close>

definition withoutDescription :: "ArchiveEntry \<Rightarrow> ArchiveEntry" where
  "withoutDescription entry = entry\<lparr> Post := (Post entry)\<lparr> Subtitle := [], Description := [] \<rparr> \<rparr>"

lemma foldl_append_concat: "foldl (\<lambda>acc x. acc @ f x) init xs = init @ concat (map f xs)"
  by (induction xs arbitrary: init) simp_all






text \<open>The whole pages: the banner, then the entries in archive order, one after another.\<close>

lemma GenerateHTML_content:
  "GenerateHTML time_Parse Format_date Format_datetime filepath_Rel fs a outputDir =
     os_WriteFile fs (outputDir @ [''index.html''])
       (htmlHeader
        @ concat (map (htmlEntry time_Parse Format_date Format_datetime filepath_Rel outputDir) (Entries a))
        @ ''</body>'' @ NL @ ''</html>'')"
  by (simp add: GenerateHTML_def Let_def foldl_append_concat)

lemma GenerateMarkdown_content:
  "GenerateMarkdown time_Parse Format_date Format_datetime filepath_Rel fs a outputDir =
     os_WriteFile fs (outputDir @ [''index.md''])
       (''# Substack Archive'' @ NL @ NL
        @ concat (map (mdEntry time_Parse Format_date Format_datetime filepath_Rel outputDir) (Entries a)))"
  by (simp add: GenerateMarkdown_def Let_def foldl_append_concat)

lemma GenerateText_content:
  "GenerateText time_Parse Format_date Format_datetime filepath_Rel fs a outputDir =
     os_WriteFile fs (outputDir @ [''index.txt''])
       (''SUBSTACK ARCHIVE'' @ NL @ ''================'' @ NL @ NL
        @ concat (map (txtEntry time_Parse Format_date Format_datetime filepath_Rel outputDir) (Entries a)))"
  by (simp add: GenerateText_def Let_def foldl_append_concat)

section \<open>Strings: \<open>strings.Index\<close>, \<open>LastIndex\<close>, \<open>Contains\<close>, \<open>TrimSpace\<close>\<close>

text \<open>
  \<open>strings.Index\<close> is the byte index of the first occurrence of the substring and
  \<open>strings.LastIndex\<close> of the last one; both are \<open>-1\<close> when there is none.
\<close>

fun Index :: "string \<Rightarrow> string \<Rightarrow> int" where
  "Index [] substr = (if substr = [] then 0 else -1)"
| "Index (c # cs) substr =
     (if prefix substr (c # cs) then 0
      else (let r = Index cs substr in if r < 0 then -1 else r + 1))"

fun LastIndex :: "string \<Rightarrow> string \<Rightarrow> int" where
  "LastIndex [] substr = (if substr = [] then 0 else -1)"
| "LastIndex (c # cs) substr =
     (let r = LastIndex cs substr in
      if 0 \<le> r then r + 1 else if prefix substr (c # cs) then 0 else -1)"

definition Contains :: "string \<Rightarrow> string \<Rightarrow> bool" where
  "Contains s substr = (0 \<le> Index s substr)"

text \<open>The slice expression \<open>s[i:j]\<close>, for \<open>0 \<le> i \<le> j \<le> len(s)\<close> (the source never leaves it).\<close>

definition slice :: "string \<Rightarrow> int \<Rightarrow> int \<Rightarrow> string" where
  "slice s i j = take (nat (j - i)) (drop (nat i) s)"

text \<open>
  \<open>strings.TrimSpace\<close> removes the leading and trailing white space, as Unicode defines it:
  the ASCII characters tab, line feed, vertical tab, form feed, carriage return and space,
  and the runes U+0085, U+00A0, U+1680, U+2000 to U+200A, U+2028, U+2029, U+202F, U+205F and
  U+3000, here in their UTF-8 encodings.
\<close>

definition spaceRunes :: "string list" where
  "spaceRunes =
     [[CHR 0x09], [CHR 0x0A], [CHR 0x0B], [CHR 0x0C], [CHR 0x0D], [CHR 0x20],
      [CHR 0xC2, CHR 0x85], [CHR 0xC2, CHR 0xA0], [CHR 0xE1, CHR 0x9A, CHR 0x80],
      [CHR 0xE2, CHR 0x80, CHR 0x80], [CHR 0xE2, CHR 0x80, CHR 0x81], [CHR 0xE2, CHR 0x80, CHR 0x82],
      [CHR 0xE2, CHR 0x80, CHR 0x83], [CHR 0xE2, CHR 0x80, CHR 0x84], [CHR 0xE2, CHR 0x80, CHR 0x85],
      [CHR 0xE2, CHR 0x80, CHR 0x86], [CHR 0xE2, CHR 0x80, CHR 0x87], [CHR 0xE2, CHR 0x80, CHR 0x88],
      [CHR 0xE2, CHR 0x80, CHR 0x89], [CHR 0xE2, CHR 0x80, CHR 0x8A], [CHR 0xE2, CHR 0x80, CHR 0xA8],
      [CHR 0xE2, CHR 0x80, CHR 0xA9], [CHR 0xE2, CHR 0x80, CHR 0xAF], [CHR 0xE2, CHR 0x81, CHR 0x9F],
      [CHR 0xE3, CHR 0x80, CHR 0x80]]"

text \<open>The length of the white-space rune a string starts with, \<open>0\<close> when it starts with none.\<close>

definition leadingSpace :: "string \<Rightarrow> nat" where
  "leadingSpace s = (case filter (\<lambda>r. prefix r s) spaceRunes of [] \<Rightarrow> 0 | r # _ \<Rightarrow> length r)"

definition trailingSpace :: "string \<Rightarrow> nat" where
  "trailingSpace s = (case filter (\<lambda>r. suffix r s) spaceRunes of [] \<Rightarrow> 0 | r # _ \<Rightarrow> length r)"

fun trimLeft :: "nat \<Rightarrow> string \<Rightarrow> string" where
  "trimLeft 0 s = s"
| "trimLeft (Suc fuel) s = (if leadingSpace s = 0 then s else trimLeft fuel (drop (leadingSpace s) s))"

fun trimRight :: "nat \<Rightarrow> string \<Rightarrow> string" where
  "trimRight 0 s = s"
| "trimRight (Suc fuel) s =
     (if trailingSpace s = 0 then s else trimRight fuel (take (length s - trailingSpace s) s))"

text \<open>Every round removes at least one byte, so the length of the string is fuel enough.\<close>

definition TrimSpace :: "string \<Rightarrow> string" where
  "TrimSpace s = trimRight (length s) (trimLeft (length s) s)"

subsection \<open>Facts about the string functions\<close>

lemma Index_ge: "-1 \<le> Index s substr"
  by (induction s) (auto simp: Let_def)

lemma Index_nonneg_iff: "0 \<le> Index s substr \<longleftrightarrow> sublist substr s"
proof (induction s)
  case Nil
  then show ?case by simp
next
  case (Cons c cs)
  show ?case
    using Cons.IH Index_ge [of cs substr]
    by (auto simp: Let_def sublist_Cons_right)
qed

lemma Contains_iff: "Contains s substr \<longleftrightarrow> sublist substr s"
  by (simp add: Contains_def Index_nonneg_iff)

text \<open>The substring occurs in the string at byte index \<open>i\<close>.\<close>

definition occursAt :: "string \<Rightarrow> string \<Rightarrow> nat \<Rightarrow> bool" where
  "occursAt substr s i = (i + length substr \<le> length s \<and> take (length substr) (drop i s) = substr)"

lemma occursAt_0: "occursAt substr s 0 \<longleftrightarrow> prefix substr s"
proof
  assume "occursAt substr s 0"
  then have "take (length substr) s = substr" by (simp add: occursAt_def)
  then show "prefix substr s" by (metis take_is_prefix)
next
  assume "prefix substr s"
  then show "occursAt substr s 0"
    by (auto simp: occursAt_def prefix_def)
qed

lemma occursAt_Suc: "occursAt substr (c # cs) (Suc i) \<longleftrightarrow> occursAt substr cs i"
  by (simp add: occursAt_def)

lemma Index_occurs: "0 \<le> Index s substr \<Longrightarrow> occursAt substr s (nat (Index s substr))"
proof (induction s)
  case Nil
  then show ?case by (simp add: occursAt_def split: if_splits)
next
  case (Cons c cs)
  show ?case
  proof (cases "prefix substr (c # cs)")
    case True
    then show ?thesis by (simp add: occursAt_0)
  next
    case False
    with Cons.prems have r: "0 \<le> Index cs substr"
      by (simp add: Let_def split: if_splits)
    with False have "Index (c # cs) substr = Index cs substr + 1"
      by (simp add: Let_def)
    moreover have "nat (Index cs substr + 1) = Suc (nat (Index cs substr))"
      using r by simp
    ultimately show ?thesis
      using Cons.IH [OF r] by (simp add: occursAt_Suc)
  qed
qed

lemma Index_least: "occursAt substr s i \<Longrightarrow> 0 \<le> Index s substr \<and> Index s substr \<le> int i"
proof (induction s arbitrary: i)
  case Nil
  then show ?case by (simp add: occursAt_def)
next
  case (Cons c cs)
  show ?case
  proof (cases "prefix substr (c # cs)")
    case True
    then show ?thesis by simp
  next
    case False
    with Cons.prems obtain k where i: "i = Suc k"
      by (cases i) (auto simp: occursAt_0)
    with Cons.prems have "occursAt substr cs k" by (simp add: occursAt_Suc)
    from Cons.IH [OF this] False show ?thesis
      by (simp add: Let_def i)
  qed
qed

lemma LastIndex_ge: "-1 \<le> LastIndex s substr"
  by (induction s) (auto simp: Let_def)

lemma LastIndex_occurs: "0 \<le> LastIndex s substr \<Longrightarrow> occursAt substr s (nat (LastIndex s substr))"
proof (induction s)
  case Nil
  then show ?case by (simp add: occursAt_def split: if_splits)
next
  case (Cons c cs)
  show ?case
  proof (cases "0 \<le> LastIndex cs substr")
    case True
    then have "LastIndex (c # cs) substr = LastIndex cs substr + 1"
      by (simp add: Let_def)
    moreover have "nat (LastIndex cs substr + 1) = Suc (nat (LastIndex cs substr))"
      using True by simp
    ultimately show ?thesis
      using Cons.IH [OF True] by (simp add: occursAt_Suc)
  next
    case False
    with Cons.prems have "prefix substr (c # cs)" "LastIndex (c # cs) substr = 0"
      by (simp_all add: Let_def split: if_splits)
    then show ?thesis by (simp add: occursAt_0)
  qed
qed

lemma LastIndex_greatest: "occursAt substr s i \<Longrightarrow> int i \<le> LastIndex s substr"
proof (induction s arbitrary: i)
  case Nil
  then show ?case by (simp add: occursAt_def)
next
  case (Cons c cs)
  show ?case
  proof (cases i)
    case 0
    with Cons.prems have "prefix substr (c # cs)" by (simp add: occursAt_0)
    then show ?thesis using 0 LastIndex_ge [of cs substr] by (simp add: Let_def)
  next
    case (Suc k)
    with Cons.prems have "occursAt substr cs k" by (simp add: occursAt_Suc)
    from Cons.IH [OF this] show ?thesis
      by (simp add: Let_def Suc)
  qed
qed

section \<open>The extractor\<close>

text \<open>
  A parsed document is what the selections of the source read from it:
  the text of every \<open>script\<close> element in document order (\<open>doc.Find("script")\<close>), the text of
  the first element of class \<open>subtitle\<close> (\<open>doc.Find(".subtitle").First().Text()\<close>, empty when
  there is none), the \<open>content\<close> attribute of the \<open>og:image\<close> meta element
  (\<open>Attr("content")\<close>, \<open>None\<close> when it does not exist), and for every \<open>url\<close> element of a
  site map the texts of its \<open>loc\<close> and \<open>lastmod\<close>.
\<close>

record Document =
  scripts :: "string list"
  subtitleText :: string
  ogImage :: "string option"
  urlEntries :: "(string \<times> string) list"

text \<open>
  A context is read by polling: \<open>ctx k\<close> tells whether \<open>ctx.Done()\<close> is closed at the
  \<open>k\<close>-th poll of the call that holds it.
\<close>

type_synonym Context = "nat \<Rightarrow> bool"

text \<open>
  The \<open>Extractor\<close> holds its fetcher, whose \<open>FetchURL\<close> returns the body or an error. The
  libraries the extractor calls are the second parameter of its functions: goquery's
  parser, \<open>json.Unmarshal\<close> into a string and into a \<open>PostWrapper\<close> (of which \<open>ToPost\<close>
  returns the \<open>Post\<close>), and the composition of \<open>url.Parse\<close>, \<open>url.JoinPath\<close> with
  \<open>sitemap.xml\<close> and \<open>String\<close>.
\<close>

record Extractor =
  FetchURL :: "Context \<Rightarrow> string \<Rightarrow> error + string"

record Library =
  NewDocumentFromReader :: "string \<Rightarrow> error + Document"
  Unmarshal_string :: "string \<Rightarrow> error + string"
  Unmarshal_PostWrapper :: "string \<Rightarrow> error + Post"
  sitemapURL :: "string \<Rightarrow> error + string"

text \<open>
  \<open>extractJSONString\<close>: the callback of \<open>EachWithBreak\<close> run over the scripts in order. It
  returns \<open>true\<close> (go on) by recursion on the rest and \<open>false\<close> (break) with the slice found.
\<close>

fun extractJSONString_each :: "string list \<Rightarrow> string \<times> bool" where
  \<open>extractJSONString_each [] = ([], False)\<close>
| \<open>extractJSONString_each (content # rest) =
     (if Contains content ''window._preloads'' \<and> Contains content ''JSON.parse('' then
        (let start = Index content ''JSON.parse("'' in
         if start = -1 then extractJSONString_each rest
         else
           (let start' = start + int (length ''JSON.parse("'');
                end = LastIndex content ''")'' in
            if end = -1 \<or> start' \<ge> end then extractJSONString_each rest
            else (slice content start' end, True)))
      else extractJSONString_each rest)\<close>

definition extractJSONString :: "Document \<Rightarrow> error + string" where
  "extractJSONString doc =
     (case extractJSONString_each (scripts doc) of
        (jsonString, found) \<Rightarrow> if \<not> found then Inl FailedToExtractJSONString else Inr jsonString)"

definition ToPost :: "Library \<Rightarrow> string \<Rightarrow> error + Post" where
  "ToPost lib str = Unmarshal_PostWrapper lib str"

text \<open>
  \<open>ExtractPost\<close> returns a pair, as the Go function does: the post and the error, \<open>None\<close>
  for \<open>nil\<close>. Every failing return carries the zero post.
\<close>

definition enrich :: "Document \<Rightarrow> Post \<Rightarrow> Post" where
  "enrich doc p =
     (let subtitle = subtitleText doc;
          p1 = (if subtitle \<noteq> [] then p\<lparr> Subtitle := TrimSpace subtitle \<rparr> else p)
      in if CoverImage p1 = [] then
           (case ogImage doc of
              Some ogImg \<Rightarrow> if ogImg \<noteq> [] then p1\<lparr> CoverImage := ogImg \<rparr> else p1
            | None \<Rightarrow> p1)
         else p1)"

definition ExtractPost :: "Library \<Rightarrow> Extractor \<Rightarrow> Context \<Rightarrow> string \<Rightarrow> Post \<times> error option" where
  \<open>ExtractPost lib e ctx pageUrl =
     (case FetchURL e ctx pageUrl of
        Inl err \<Rightarrow> (zeroPost, Some (FailedToFetchPage err))
      | Inr body \<Rightarrow>
     (case NewDocumentFromReader lib body of
        Inl err \<Rightarrow> (zeroPost, Some (FailedToParseHTML err))
      | Inr doc \<Rightarrow>
     (case extractJSONString doc of
        Inl err \<Rightarrow> (zeroPost, Some (FailedToExtractPostData err))
      | Inr jsonString \<Rightarrow>
     (case Unmarshal_string lib ([CHR 0x22] @ jsonString @ [CHR 0x22]) of
        Inl err \<Rightarrow> (zeroPost, Some (FailedToUnescapeJSON err))
      | Inr rawJSON \<Rightarrow>
     (case ToPost lib rawJSON of
        Inl err \<Rightarrow> (zeroPost, Some (FailedToParsePostData err))
      | Inr p \<Rightarrow> (enrich doc p, None))))))\<close>



subsection \<open>Pages without the preload marker\<close>

text \<open>
  A script has the preload marker when it contains the assignment marker
  \<open>window._preloads\<close> and a \<open>JSON.parse("\<close> call whose boundaries can be located: an opening
  \<open>JSON.parse("\<close> at some index and a closing \<open>")\<close> at a later one, with at least one byte
  between the end of the opening and the closing.
\<close>

definition hasPreloadMarker :: "string \<Rightarrow> bool" where
  \<open>hasPreloadMarker content \<longleftrightarrow>
     sublist ''window._preloads'' content \<and>
     (\<exists>i \<in> {..<length content}. \<exists>j \<in> {..<length content}.
        occursAt ''JSON.parse("'' content i \<and> occursAt ''")'' content j \<and>
        i + length ''JSON.parse("'' < j)\<close>

lemma hasPreloadMarker_code:
  \<open>hasPreloadMarker content \<longleftrightarrow>
     Contains content ''window._preloads'' \<and> Contains content ''JSON.parse('' \<and>
     Index content ''JSON.parse("'' \<noteq> -1 \<and> LastIndex content ''")'' \<noteq> -1 \<and>
     Index content ''JSON.parse("'' + int (length ''JSON.parse("'') < LastIndex content ''")''\<close>
  (is "?spec \<longleftrightarrow> ?code")
proof
  assume ?spec
  then obtain i j where w: "sublist ''window._preloads'' content"
    and i: \<open>occursAt ''JSON.parse("'' content i\<close> and j: \<open>occursAt ''")'' content j\<close>
    and ij: \<open>i + length ''JSON.parse("'' < j\<close>
    by (auto simp: hasPreloadMarker_def)
  from Index_least [OF i] have I: \<open>0 \<le> Index content ''JSON.parse("''\<close> \<open>Index content ''JSON.parse("'' \<le> int i\<close>
    by simp_all
  from LastIndex_greatest [OF j] have J: \<open>int j \<le> LastIndex content ''")''\<close> .
  have \<open>sublist ''JSON.parse("'' content\<close> using I(1) by (simp add: Index_nonneg_iff)
  moreover have \<open>sublist ''JSON.parse('' ''JSON.parse("''\<close>
    by (rule prefix_imp_sublist) simp
  ultimately have "sublist ''JSON.parse('' content"
    by (rule sublist_order.order.trans [rotated])
  with w I J ij show ?code
    by (simp add: Contains_iff)
next
  assume c: ?code
  let ?i = \<open>nat (Index content ''JSON.parse("'')\<close> and ?j = \<open>nat (LastIndex content ''")'')\<close>
  from c have I: \<open>0 \<le> Index content ''JSON.parse("''\<close>
    using Index_ge [of content \<open>''JSON.parse("''\<close>] by simp
  from c have J: \<open>0 \<le> LastIndex content ''")''\<close>
    using LastIndex_ge [of content \<open>''")''\<close>] by simp
  have oi: \<open>occursAt ''JSON.parse("'' content ?i\<close> by (rule Index_occurs [OF I])
  have oj: \<open>occursAt ''")'' content ?j\<close> by (rule LastIndex_occurs [OF J])
  have "?i < length content" "?j < length content"
    using oi oj by (simp_all add: occursAt_def)
  moreover have \<open>?i + length ''JSON.parse("'' < ?j\<close>
  proof -
    have len: \<open>length ''JSON.parse("'' = 12\<close> by simp
    from c have \<open>Index content ''JSON.parse("'' + 12 < LastIndex content ''")''\<close> by simp
    with I J have "?i + 12 < ?j" by linarith
    then show ?thesis by (simp only: len)
  qed
  ultimately show ?spec
    using c oi oj unfolding hasPreloadMarker_def Contains_iff by blast
qed

lemma extractJSONString_each_found:
  "snd (extractJSONString_each cs) \<longleftrightarrow> (\<exists>content \<in> set cs. hasPreloadMarker content)"
  by (induction cs) (auto simp: hasPreloadMarker_code Let_def)

text \<open>
  Claim C8. When the page was fetched and parsed and none of its scripts has the preload
  marker, \<open>ExtractPost\<close> returns the zero post, nothing of it populated, together with the
  extraction error. The function is total: no index leaves its string.
\<close>

theorem ExtractPost_no_marker:
  assumes "FetchURL e ctx pageUrl = Inr body"
    and "NewDocumentFromReader lib body = Inr doc"
    and "\<forall>content \<in> set (scripts doc). \<not> hasPreloadMarker content"
  shows "ExtractPost lib e ctx pageUrl
           = (zeroPost, Some (FailedToExtractPostData FailedToExtractJSONString))"
proof -
  from assms(3) have "\<not> snd (extractJSONString_each (scripts doc))"
    by (simp add: extractJSONString_each_found)
  then have "extractJSONString doc = Inl FailedToExtractJSONString"
    by (cases "extractJSONString_each (scripts doc)") (simp add: extractJSONString_def)
  with assms(1,2) show ?thesis
    by (simp add: ExtractPost_def)
qed

subsection \<open>Site map discovery\<close>




subsection \<open>The enrichments after decoding\<close>

text \<open>
  Claim C3, as amended. When the payload was extracted and decoded into the post \<open>p\<close>, the
  post returned has the trimmed text of the \<open>.subtitle\<close> element as its subtitle whenever
  that text is non-empty, whatever subtitle was decoded (a text of white space only leaves
  the empty subtitle), and the decoded subtitle when the element is absent or has no text;
  its cover image is the decoded one when that is non-empty, and otherwise the \<open>content\<close>
  of the \<open>og:image\<close> element if it exists; every other field is the decoded one.
\<close>

theorem ExtractPost_enrichment:
  assumes "FetchURL e ctx pageUrl = Inr body"
    and "NewDocumentFromReader lib body = Inr doc"
    and "extractJSONString doc = Inr jsonString"
    and "Unmarshal_string lib ([CHR 0x22] @ jsonString @ [CHR 0x22]) = Inr rawJSON"
    and "ToPost lib rawJSON = Inr p"
  shows "\<exists>q. ExtractPost lib e ctx pageUrl = (q, None)
       \<and> (subtitleText doc \<noteq> [] \<longrightarrow> Subtitle q = TrimSpace (subtitleText doc))
       \<and> (subtitleText doc = [] \<longrightarrow> Subtitle q = Subtitle p)
       \<and> (CoverImage p \<noteq> [] \<longrightarrow> CoverImage q = CoverImage p)
       \<and> (CoverImage p = [] \<longrightarrow>
            CoverImage q = (case ogImage doc of Some ogImg \<Rightarrow> ogImg | None \<Rightarrow> []))
       \<and> q\<lparr> Subtitle := [], CoverImage := [] \<rparr> = p\<lparr> Subtitle := [], CoverImage := [] \<rparr>"
proof -
  have E: "ExtractPost lib e ctx pageUrl = (enrich doc p, None)"
    using assms by (simp add: ExtractPost_def)
  show ?thesis
    unfolding E by (auto simp: enrich_def Let_def split: option.splits)
qed

section \<open>encoding/json\<close>

subsection \<open>UTF-8\<close>

text \<open>
  Bytes are compared through their bits: a byte is below \<open>0x80\<close> when its top bit is clear,
  a continuation byte when its two top bits are \<open>10\<close>.
\<close>

definition byte :: "char \<Rightarrow> nat" where
  "byte c = of_char c"

definition isCont :: "char \<Rightarrow> bool" where
  "isCont c = (digit7 c \<and> \<not> digit6 c)"

text \<open>
  \<open>utf8.DecodeRune\<close>, as far as its callers need it: the length of the well-formed
  encoding the string starts with, \<open>0\<close> when it starts with none (there Go returns
  \<open>RuneError\<close> with size \<open>1\<close>).
\<close>

fun runeLen :: "string \<Rightarrow> nat" where
  "runeLen [] = 0"
| "runeLen (c # cs) =
     (if byte c < 0x80 then 1
      else if 0xC2 \<le> byte c \<and> byte c \<le> 0xDF then
        (case cs of c1 # _ \<Rightarrow> if isCont c1 then 2 else 0 | _ \<Rightarrow> 0)
      else if 0xE0 \<le> byte c \<and> byte c \<le> 0xEF then
        (case cs of
           c1 # c2 # _ \<Rightarrow>
             if isCont c1 \<and> isCont c2
                \<and> (if byte c = 0xE0 then 0xA0 \<le> byte c1 else True)
                \<and> (if byte c = 0xED then byte c1 \<le> 0x9F else True) then 3 else 0
         | _ \<Rightarrow> 0)
      else if 0xF0 \<le> byte c \<and> byte c \<le> 0xF4 then
        (case cs of
           c1 # c2 # c3 # _ \<Rightarrow>
             if isCont c1 \<and> isCont c2 \<and> isCont c3
                \<and> (if byte c = 0xF0 then 0x90 \<le> byte c1 else True)
                \<and> (if byte c = 0xF4 then byte c1 \<le> 0x8F else True) then 4 else 0
         | _ \<Rightarrow> 0)
      else 0)"

declare runeLen.simps(2) [simp del]

text \<open>\<open>utf8.EncodeRune\<close>: surrogates and values above U+10FFFF become U+FFFD.\<close>

definition replacementChar :: string where
  "replacementChar = [CHR 0xEF, CHR 0xBF, CHR 0xBD]"

definition encodeRune :: "nat \<Rightarrow> string" where
  "encodeRune r =
     (if r < 0x80 then [char_of r]
      else if r < 0x800 then [char_of (0xC0 + r div 64), char_of (0x80 + r mod 64)]
      else if (0xD800 \<le> r \<and> r \<le> 0xDFFF) \<or> 0x10FFFF < r then replacementChar
      else if r < 0x10000 then
        [char_of (0xE0 + r div 4096), char_of (0x80 + r div 64 mod 64), char_of (0x80 + r mod 64)]
      else
        [char_of (0xF0 + r div 262144), char_of (0x80 + r div 4096 mod 64),
         char_of (0x80 + r div 64 mod 64), char_of (0x80 + r mod 64)])"

subsection \<open>Encoding: \<open>json.Marshal\<close> of a \<open>PostWrapper\<close>\<close>

definition hexDigit :: "nat \<Rightarrow> char" where
  "hexDigit n = ''0123456789abcdef'' ! (n mod 16)"

text \<open>
  What \<open>appendString\<close> (with HTML escaping, as \<open>Marshal\<close> sets it) writes for a byte below
  \<open>0x80\<close>: itself if it is HTML-safe, else its escape.
\<close>

definition escapeByte :: "char \<Rightarrow> string" where
  \<open>escapeByte c =
     (if c = CHR 0x5C \<or> c = CHR 0x22 then [CHR 0x5C, c]
      else if c = CHR 0x08 then [CHR 0x5C, CHR ''b'']
      else if c = CHR 0x0C then [CHR 0x5C, CHR ''f'']
      else if c = CHR 0x0A then [CHR 0x5C, CHR ''n'']
      else if c = CHR 0x0D then [CHR 0x5C, CHR ''r'']
      else if c = CHR 0x09 then [CHR 0x5C, CHR ''t'']
      else if byte c < 0x20 \<or> c = CHR ''<'' \<or> c = CHR ''>'' \<or> c = CHR ''&''
        then [CHR 0x5C, CHR ''u'', CHR ''0'', CHR ''0'', hexDigit (byte c div 16), hexDigit (byte c mod 16)]
      else [c])\<close>

text \<open>
  The loop of \<open>appendString\<close> over the bytes of the string: bytes below \<open>0x80\<close> one by one,
  the others rune by rune, an ill-formed byte written as the escape of U+FFFD and the
  separators U+2028 and U+2029 as their escapes.
\<close>

function appendString_loop :: "string \<Rightarrow> string" where
  "appendString_loop [] = []"
| "appendString_loop (c # cs) =
     (if byte c < 0x80 then escapeByte c @ appendString_loop cs
      else
        (let size = runeLen (c # cs) in
         if size = 0 then [CHR 0x5C] @ ''ufffd'' @ appendString_loop cs
         else if take size (c # cs) = [CHR 0xE2, CHR 0x80, CHR 0xA8]
           then [CHR 0x5C] @ ''u2028'' @ appendString_loop (drop size (c # cs))
         else if take size (c # cs) = [CHR 0xE2, CHR 0x80, CHR 0xA9]
           then [CHR 0x5C] @ ''u2029'' @ appendString_loop (drop size (c # cs))
         else take size (c # cs) @ appendString_loop (drop size (c # cs))))"
  by pat_completeness auto
termination
  by (relation "measure length") auto

definition appendString :: "string \<Rightarrow> string" where
  "appendString src = [CHR 0x22] @ appendString_loop src @ [CHR 0x22]"

text \<open>\<open>strconv.AppendInt\<close> in base 10.\<close>

function formatNat :: "nat \<Rightarrow> string" where
  "formatNat n = (if n < 10 then [hexDigit n] else formatNat (n div 10) @ [hexDigit (n mod 10)])"
  by pat_completeness auto
termination
  by (relation "measure id") auto

declare formatNat.simps [simp del]

definition formatInt :: "int \<Rightarrow> string" where
  "formatInt i = (if i < 0 then ''-'' @ formatNat (nat (- i)) else formatNat (nat i))"

text \<open>
  \<open>json.Marshal(PostWrapper{Post: p})\<close>: the fields in declaration order under their tags,
  the subtitle omitted when empty.
\<close>

definition quoted :: "string \<Rightarrow> string" where
  "quoted name = [CHR 0x22] @ name @ [CHR 0x22]"

definition Marshal_PostWrapper :: "Post \<Rightarrow> string" where
  "Marshal_PostWrapper p =
     ''{'' @ quoted ''post'' @ '':{'' @
       quoted ''id'' @ '':'' @ formatInt (sint (Id_post p)) @ '','' @
       quoted ''publication_id'' @ '':'' @ formatInt (sint (PublicationId p)) @ '','' @
       quoted ''type'' @ '':'' @ appendString (Type p) @ '','' @
       quoted ''slug'' @ '':'' @ appendString (Slug p) @ '','' @
       quoted ''post_date'' @ '':'' @ appendString (PostDate p) @ '','' @
       quoted ''canonical_url'' @ '':'' @ appendString (CanonicalUrl p) @ '','' @
       quoted ''previous_post_slug'' @ '':'' @ appendString (PreviousPostSlug p) @ '','' @
       quoted ''next_post_slug'' @ '':'' @ appendString (NextPostSlug p) @ '','' @
       quoted ''cover_image'' @ '':'' @ appendString (CoverImage p) @ '','' @
       quoted ''description'' @ '':'' @ appendString (Description p) @ '','' @
       (if Subtitle p = [] then [] else quoted ''subtitle'' @ '':'' @ appendString (Subtitle p) @ '','') @
       quoted ''wordcount'' @ '':'' @ formatInt (sint (WordCount p)) @ '','' @
       quoted ''title'' @ '':'' @ appendString (Title p) @ '','' @
       quoted ''body_html'' @ '':'' @ appendString (BodyHTML p) @
     ''}}''"

subsection \<open>The helpers of the repository's tests\<close>

definition createSamplePost :: Post where
  "createSamplePost = \<lparr> Id_post = 123, PublicationId = 456, Type = ''post'', Slug = ''test-post'',
     PostDate = ''2023-01-01'', CanonicalUrl = ''https://example.substack.com/p/test-post'',
     PreviousPostSlug = ''previous-post'', NextPostSlug = ''next-post'',
     CoverImage = ''https://example.com/image.jpg'', Description = ''Test description'',
     Subtitle = ''Test subtitle'', WordCount = 100, Title = ''Test Post'',
     BodyHTML = ''<p>This is a <strong>test</strong> post.</p>'' \<rparr>"

text \<open>\<open>strings.ReplaceAll(s, `"`, `\"`)\<close>.\<close>

fun escapeQuotes :: "string \<Rightarrow> string" where
  "escapeQuotes [] = []"
| "escapeQuotes (c # cs) = (if c = CHR 0x22 then [CHR 0x5C, CHR 0x22] else [c]) @ escapeQuotes cs"

definition escapeJSONForJS :: "Post \<Rightarrow> string" where
  "escapeJSONForJS post = escapeQuotes (Marshal_PostWrapper post)"

subsection \<open>Decoding: string literals\<close>

definition isWS :: "char \<Rightarrow> bool" where
  "isWS c = (c = CHR 0x20 \<or> c = CHR 0x09 \<or> c = CHR 0x0D \<or> c = CHR 0x0A)"

definition skipWS :: "string \<Rightarrow> string" where
  "skipWS s = dropWhile isWS s"

definition isDigit :: "char \<Rightarrow> bool" where
  "isDigit c = (CHR ''0'' \<le> c \<and> c \<le> CHR ''9'')"

definition hexVal :: "char \<Rightarrow> nat option" where
  "hexVal c =
     (if isDigit c then Some (byte c - 48)
      else if CHR ''a'' \<le> c \<and> c \<le> CHR ''f'' then Some (byte c - 87)
      else if CHR ''A'' \<le> c \<and> c \<le> CHR ''F'' then Some (byte c - 55)
      else None)"

text \<open>\<open>getu4\<close> without the leading \<open>\u\<close>: the value of four hexadecimal digits.\<close>

definition getu4 :: "string \<Rightarrow> nat option" where
  "getu4 s =
     (case s of
        h1 # h2 # h3 # h4 # _ \<Rightarrow>
          (case (hexVal h1, hexVal h2, hexVal h3, hexVal h4) of
             (Some a, Some b, Some c, Some d) \<Rightarrow> Some (((a * 16 + b) * 16 + c) * 16 + d)
           | _ \<Rightarrow> None)
      | _ \<Rightarrow> None)"

text \<open>
  \<open>utf16.DecodeRune\<close> of a first surrogate and the escape that follows it: the rune of a
  valid pair, \<open>None\<close> when what follows is no second surrogate.
\<close>

definition surrogatePair :: "nat \<Rightarrow> string \<Rightarrow> nat option" where
  "surrogatePair r1 s =
     (case s of
        c1 # c2 # hs \<Rightarrow>
          if c1 = CHR 0x5C \<and> c2 = CHR ''u'' then
            (case getu4 hs of
               Some r2 \<Rightarrow>
                 if r1 < 0xDC00 \<and> 0xDC00 \<le> r2 \<and> r2 < 0xE000
                 then Some ((r1 - 0xD800) * 1024 + (r2 - 0xDC00) + 0x10000) else None
             | None \<Rightarrow> None)
          else None
      | _ \<Rightarrow> None)"

definition emit :: "string \<Rightarrow> (string \<times> string) option \<Rightarrow> (string \<times> string) option" where
  "emit out r = (case r of None \<Rightarrow> None | Some (str, rest) \<Rightarrow> Some (out @ str, rest))"

text \<open>
  The bytes of a string literal after its opening quote: the scanner's check and
  \<open>unquote\<close> in one pass. The result is the string denoted and what follows the closing
  quote; \<open>None\<close> is a syntax error (end of input, a control character, a bad escape).
  Ill-formed UTF-8 and lone surrogates become U+FFFD.
\<close>

function unquoteBody :: "string \<Rightarrow> (string \<times> string) option" where
  "unquoteBody [] = None"
| "unquoteBody (c # cs) =
     (if c = CHR 0x22 then Some ([], cs)
      else if c = CHR 0x5C then
        (case cs of
           [] \<Rightarrow> None
         | e # es \<Rightarrow>
             if e = CHR 0x22 \<or> e = CHR 0x5C \<or> e = CHR ''/'' then emit [e] (unquoteBody es)
             else if e = CHR ''b'' then emit [CHR 0x08] (unquoteBody es)
             else if e = CHR ''f'' then emit [CHR 0x0C] (unquoteBody es)
             else if e = CHR ''n'' then emit [CHR 0x0A] (unquoteBody es)
             else if e = CHR ''r'' then emit [CHR 0x0D] (unquoteBody es)
             else if e = CHR ''t'' then emit [CHR 0x09] (unquoteBody es)
             else if e = CHR ''u'' then
               (case getu4 es of
                  None \<Rightarrow> None
                | Some rr \<Rightarrow>
                    if 0xD800 \<le> rr \<and> rr < 0xE000 then
                      (case surrogatePair rr (drop 4 es) of
                         Some dec \<Rightarrow> emit (encodeRune dec) (unquoteBody (drop 10 es))
                       | None \<Rightarrow> emit replacementChar (unquoteBody (drop 4 es)))
                    else emit (encodeRune rr) (unquoteBody (drop 4 es)))
             else None)
      else if byte c < 0x20 then None
      else if byte c < 0x80 then emit [c] (unquoteBody cs)
      else
        (let size = runeLen (c # cs) in
         if size = 0 then emit replacementChar (unquoteBody cs)
         else emit (take size (c # cs)) (unquoteBody (drop size (c # cs)))))"
  by pat_completeness auto
termination
  by (relation "measure length") auto

subsection \<open>Decoding: numbers and values\<close>

text \<open>
  A number literal by the grammar of JSON: the literal and what follows it. A literal with
  a fraction or an exponent is a number, but no integer.
\<close>

definition takeDigits :: "string \<Rightarrow> string \<times> string" where
  "takeDigits s = (takeWhile isDigit s, dropWhile isDigit s)"

definition numberInt :: "string \<Rightarrow> (string \<times> string) option" where
  "numberInt s =
     (case s of
        [] \<Rightarrow> None
      | c # cs \<Rightarrow>
          if c = CHR ''0'' then Some ([c], cs)
          else if isDigit c then Some (c # fst (takeDigits cs), snd (takeDigits cs))
          else None)"

definition numberFrac :: "string \<Rightarrow> (string \<times> string) option" where
  "numberFrac s =
     (case s of
        c # cs \<Rightarrow>
          if c = CHR ''.'' then
            (if fst (takeDigits cs) = [] then None else Some (c # fst (takeDigits cs), snd (takeDigits cs)))
          else Some ([], s)
      | [] \<Rightarrow> Some ([], s))"

definition numberExp :: "string \<Rightarrow> (string \<times> string) option" where
  "numberExp s =
     (case s of
        c # cs \<Rightarrow>
          if c = CHR ''e'' \<or> c = CHR ''E'' then
            (let (sign, ds) =
               (case cs of
                  d # r \<Rightarrow> if d = CHR ''+'' \<or> d = CHR ''-'' then ([d], r) else ([], cs)
                | [] \<Rightarrow> ([], cs))
             in if fst (takeDigits ds) = [] then None
                else Some (c # sign @ fst (takeDigits ds), snd (takeDigits ds)))
          else Some ([], s)
      | [] \<Rightarrow> Some ([], s))"

definition parseNumber :: "string \<Rightarrow> (string \<times> string) option" where
  "parseNumber s =
     (let (sign, s0) = (case s of c # cs \<Rightarrow> if c = CHR ''-'' then ([c], cs) else ([], s) | [] \<Rightarrow> ([], s))
      in case numberInt s0 of
           None \<Rightarrow> None
         | Some (i, s1) \<Rightarrow>
             (case numberFrac s1 of
                None \<Rightarrow> None
              | Some (f, s2) \<Rightarrow>
                  (case numberExp s2 of
                     None \<Rightarrow> None
                   | Some (e, s3) \<Rightarrow> Some (sign @ i @ f @ e, s3))))"

datatype json =
    JNull
  | JBool bool
  | JNumber string
  | JString string
  | JArray "json list"
  | JObject "(string \<times> json) list"

text \<open>
  The recursive descent over a JSON text. The fuel bounds the nesting of the calls; every
  call is made after at least one byte was consumed, so the length of the text, plus one,
  is fuel enough.
\<close>

fun parseValue :: "nat \<Rightarrow> string \<Rightarrow> (json \<times> string) option"
  and parseElements :: "nat \<Rightarrow> string \<Rightarrow> (json list \<times> string) option"
  and parseMembers :: "nat \<Rightarrow> string \<Rightarrow> ((string \<times> json) list \<times> string) option"
where
  "parseValue 0 s = None"
| "parseValue (Suc n) s =
     (case skipWS s of
        [] \<Rightarrow> None
      | c # cs \<Rightarrow>
          if c = CHR 0x22 then
            (case unquoteBody cs of None \<Rightarrow> None | Some (str, rest) \<Rightarrow> Some (JString str, rest))
          else if c = CHR ''{'' then
            (case skipWS cs of
               [] \<Rightarrow> None
             | d # ds \<Rightarrow>
                 if d = CHR ''}'' then Some (JObject [], ds)
                 else (case parseMembers n cs of
                         None \<Rightarrow> None
                       | Some (ms, rest) \<Rightarrow> Some (JObject ms, rest)))
          else if c = CHR ''['' then
            (case skipWS cs of
               [] \<Rightarrow> None
             | d # ds \<Rightarrow>
                 if d = CHR '']'' then Some (JArray [], ds)
                 else (case parseElements n cs of
                         None \<Rightarrow> None
                       | Some (vs, rest) \<Rightarrow> Some (JArray vs, rest)))
          else if prefix ''true'' (c # cs) then Some (JBool True, drop 3 cs)
          else if prefix ''false'' (c # cs) then Some (JBool False, drop 4 cs)
          else if prefix ''null'' (c # cs) then Some (JNull, drop 3 cs)
          else (case parseNumber (c # cs) of
                  None \<Rightarrow> None
                | Some (lit, rest) \<Rightarrow> Some (JNumber lit, rest)))"
| "parseElements 0 s = None"
| "parseElements (Suc n) s =
     (case parseValue n s of
        None \<Rightarrow> None
      | Some (v, rest) \<Rightarrow>
          (case skipWS rest of
             [] \<Rightarrow> None
           | d # ds \<Rightarrow>
               if d = CHR '']'' then Some ([v], ds)
               else if d = CHR '','' then
                 (case parseElements n ds of
                    None \<Rightarrow> None
                  | Some (vs, rest') \<Rightarrow> Some (v # vs, rest'))
               else None))"
| "parseMembers 0 s = None"
| "parseMembers (Suc n) s =
     (case skipWS s of
        [] \<Rightarrow> None
      | q # ks \<Rightarrow>
          if q \<noteq> CHR 0x22 then None
          else
            (case unquoteBody ks of
               None \<Rightarrow> None
             | Some (key, r1) \<Rightarrow>
                 (case skipWS r1 of
                    [] \<Rightarrow> None
                  | colon # r2 \<Rightarrow>
                      if colon \<noteq> CHR '':'' then None
                      else
                        (case parseValue n r2 of
                           None \<Rightarrow> None
                         | Some (v, r3) \<Rightarrow>
                             (case skipWS r3 of
                                [] \<Rightarrow> None
                              | d # ds \<Rightarrow>
                                  if d = CHR ''}'' then Some ([(key, v)], ds)
                                  else if d = CHR '','' then
                                    (case parseMembers n ds of
                                       None \<Rightarrow> None
                                     | Some (ms, rest) \<Rightarrow> Some ((key, v) # ms, rest))
                                  else None)))))"

text \<open>A whole text is one value between optional white space (\<open>checkValid\<close>).\<close>

definition parseJSON :: "string \<Rightarrow> json option" where
  "parseJSON data =
     (case parseValue (Suc (length data)) data of
        None \<Rightarrow> None
      | Some (v, rest) \<Rightarrow> if skipWS rest = [] then Some v else None)"

subsection \<open>Decoding: storing a value into a \<open>Post\<close>\<close>

text \<open>
  \<open>strconv.ParseInt(lit, 10, 64)\<close> on a number literal: the integer it denotes, if it has
  neither fraction nor exponent and fits 64 bits.
\<close>

definition digitVal :: "char \<Rightarrow> int" where
  "digitVal c = int (byte c) - 48"

definition readDigits :: "string \<Rightarrow> int" where
  "readDigits ds = foldl (\<lambda>acc c. 10 * acc + digitVal c) 0 ds"

definition ParseInt :: "string \<Rightarrow> 64 word option" where
  "ParseInt lit =
     (let (neg, ds) = (case lit of c # cs \<Rightarrow> if c = CHR ''-'' then (True, cs) else (False, lit)
                                  | [] \<Rightarrow> (False, lit))
      in if ds = [] \<or> \<not> list_all isDigit ds then None
         else if neg then (if readDigits ds \<le> 2 ^ 63 then Some (word_of_int (- readDigits ds)) else None)
         else (if readDigits ds < 2 ^ 63 then Some (word_of_int (readDigits ds)) else None))"

text \<open>
  Keys match field names without regard to case: ASCII letters, and the two other runes
  that fold to an ASCII letter, the long s (U+017F) and the Kelvin sign (U+212A).
\<close>

definition toLower :: "char \<Rightarrow> char" where
  "toLower c = (if CHR ''A'' \<le> c \<and> c \<le> CHR ''Z'' then char_of (byte c + 32) else c)"

fun foldName :: "string \<Rightarrow> string" where
  "foldName [] = []"
| "foldName (c # cs) =
     (if c = CHR 0xC5 \<and> take 1 cs = [CHR 0xBF] then CHR ''s'' # foldName (drop 1 cs)
      else if c = CHR 0xE2 \<and> take 2 cs = [CHR 0x84, CHR 0xAA] then CHR ''k'' # foldName (drop 2 cs)
      else toLower c # foldName cs)"

text \<open>
  A value of the wrong kind for its field is an \<open>UnmarshalTypeError\<close>: the decoder keeps
  the first one, goes on, and returns it at the end. \<open>null\<close> leaves the field as it is.
\<close>

definition typeError :: error where
  "typeError = LibraryError ''json: cannot unmarshal value into Go struct field''"

definition storeString :: "json \<Rightarrow> (string \<Rightarrow> Post \<Rightarrow> Post) \<Rightarrow> Post \<Rightarrow> Post \<times> error option" where
  "storeString v upd p =
     (case v of JString s \<Rightarrow> (upd s p, None) | JNull \<Rightarrow> (p, None) | _ \<Rightarrow> (p, Some typeError))"

definition storeInt :: "json \<Rightarrow> (64 word \<Rightarrow> Post \<Rightarrow> Post) \<Rightarrow> Post \<Rightarrow> Post \<times> error option" where
  "storeInt v upd p =
     (case v of
        JNumber lit \<Rightarrow> (case ParseInt lit of Some w \<Rightarrow> (upd w p, None) | None \<Rightarrow> (p, Some typeError))
      | JNull \<Rightarrow> (p, None)
      | _ \<Rightarrow> (p, Some typeError))"

definition decodeField :: "string \<Rightarrow> json \<Rightarrow> Post \<Rightarrow> Post \<times> error option" where
  "decodeField key v p =
     (let k = foldName key in
      if k = ''id'' then storeInt v (\<lambda>w q. q\<lparr> Id_post := w \<rparr>) p
      else if k = ''publication_id'' then storeInt v (\<lambda>w q. q\<lparr> PublicationId := w \<rparr>) p
      else if k = ''type'' then storeString v (\<lambda>s q. q\<lparr> Type := s \<rparr>) p
      else if k = ''slug'' then storeString v (\<lambda>s q. q\<lparr> Slug := s \<rparr>) p
      else if k = ''post_date'' then storeString v (\<lambda>s q. q\<lparr> PostDate := s \<rparr>) p
      else if k = ''canonical_url'' then storeString v (\<lambda>s q. q\<lparr> CanonicalUrl := s \<rparr>) p
      else if k = ''previous_post_slug'' then storeString v (\<lambda>s q. q\<lparr> PreviousPostSlug := s \<rparr>) p
      else if k = ''next_post_slug'' then storeString v (\<lambda>s q. q\<lparr> NextPostSlug := s \<rparr>) p
      else if k = ''cover_image'' then storeString v (\<lambda>s q. q\<lparr> CoverImage := s \<rparr>) p
      else if k = ''description'' then storeString v (\<lambda>s q. q\<lparr> Description := s \<rparr>) p
      else if k = ''subtitle'' then storeString v (\<lambda>s q. q\<lparr> Subtitle := s \<rparr>) p
      else if k = ''wordcount'' then storeInt v (\<lambda>w q. q\<lparr> WordCount := w \<rparr>) p
      else if k = ''title'' then storeString v (\<lambda>s q. q\<lparr> Title := s \<rparr>) p
      else if k = ''body_html'' then storeString v (\<lambda>s q. q\<lparr> BodyHTML := s \<rparr>) p
      else (p, None))"

definition saveError :: "error option \<Rightarrow> error option \<Rightarrow> error option" where
  "saveError saved err = (case saved of None \<Rightarrow> err | Some e \<Rightarrow> Some e)"

fun decodePost :: "(string \<times> json) list \<Rightarrow> Post \<times> error option \<Rightarrow> Post \<times> error option" where
  "decodePost [] st = st"
| "decodePost ((key, v) # ms) (p, saved) =
     (case decodeField key v p of (p', err) \<Rightarrow> decodePost ms (p', saveError saved err))"

fun decodeWrapper :: "(string \<times> json) list \<Rightarrow> Post \<times> error option \<Rightarrow> Post \<times> error option" where
  "decodeWrapper [] st = st"
| "decodeWrapper ((key, v) # ms) (p, saved) =
     (if foldName key = ''post'' then
        (case v of
           JObject members \<Rightarrow> decodeWrapper ms (decodePost members (p, saved))
         | JNull \<Rightarrow> decodeWrapper ms (p, saved)
         | _ \<Rightarrow> decodeWrapper ms (p, saveError saved (Some typeError)))
      else decodeWrapper ms (p, saved))"

text \<open>\<open>json.Unmarshal(data, &wrapper)\<close> followed by \<open>wrapper.Post\<close>, and \<open>json.Unmarshal(data, &str)\<close>.\<close>

definition syntaxError :: error where
  "syntaxError = LibraryError ''json: syntax error''"

definition json_Unmarshal_PostWrapper :: "string \<Rightarrow> error + Post" where
  "json_Unmarshal_PostWrapper data =
     (case parseJSON data of
        None \<Rightarrow> Inl syntaxError
      | Some v \<Rightarrow>
          (case v of
             JObject ms \<Rightarrow>
               (case decodeWrapper ms (zeroPost, None) of
                  (p, None) \<Rightarrow> Inr p
                | (p, Some err) \<Rightarrow> Inl err)
           | JNull \<Rightarrow> Inr zeroPost
           | _ \<Rightarrow> Inl typeError))"

definition json_Unmarshal_string :: "string \<Rightarrow> error + string" where
  "json_Unmarshal_string data =
     (case parseJSON data of
        None \<Rightarrow> Inl syntaxError
      | Some v \<Rightarrow>
          (case v of
             JString s \<Rightarrow> Inr s
           | JNull \<Rightarrow> Inr []
           | _ \<Rightarrow> Inl typeError))"

text \<open>
  The library with \<open>encoding/json\<close> as modelled here; goquery's parser and the building of
  the site map's address stay parameters.
\<close>

definition goLibrary :: "(string \<Rightarrow> error + Document) \<Rightarrow> (string \<Rightarrow> error + string) \<Rightarrow> Library" where
  "goLibrary parseDocument buildURL =
     \<lparr> NewDocumentFromReader = parseDocument,
       Unmarshal_string = json_Unmarshal_string,
       Unmarshal_PostWrapper = json_Unmarshal_PostWrapper,
       sitemapURL = buildURL \<rparr>"

text \<open>
  \<open>createMockSubstackHTML\<close> of the tests, parsed: its only script holds the assignment of
  the escaped payload, and it has neither a \<open>.subtitle\<close> element nor an \<open>og:image\<close> one.
\<close>

definition mockScript :: "string \<Rightarrow> string" where
  \<open>mockScript escapedJSON =
     [CHR 0x0A] @ ''    window._preloads = JSON.parse("'' @ escapedJSON @ ''")'' @ [CHR 0x0A] @ ''  ''\<close>

definition createMockSubstackHTML :: "Post \<Rightarrow> Document" where
  "createMockSubstackHTML post =
     \<lparr> scripts = [mockScript (escapeJSONForJS post)], subtitleText = [], ogImage = None,
       urlEntries = [] \<rparr>"

subsection \<open>Strings that survive the embedding of the tests\<close>

text \<open>
  A string is plain when it is well-formed UTF-8 and has no double quote, no backslash and
  no control character.
\<close>

function plain :: "string \<Rightarrow> bool" where
  "plain [] = True"
| "plain (c # cs) =
     (if byte c < 0x80 then c \<noteq> CHR 0x22 \<and> c \<noteq> CHR 0x5C \<and> 0x20 \<le> byte c \<and> plain cs
      else (let size = runeLen (c # cs) in if size = 0 then False else plain (drop size (c # cs))))"
  by pat_completeness auto
termination
  by (relation "measure length") auto

lemma byte_less_iff: "byte c < 0x80 \<longleftrightarrow> \<not> digit7 c"
  by (cases c) (simp add: byte_def)

lemma isCont_high: "isCont c \<Longrightarrow> \<not> byte c < 0x80"
  by (simp add: isCont_def byte_less_iff)

lemma runeLen_le: "runeLen s \<le> length s"
  by (cases s) (auto simp: runeLen.simps split: list.splits)

lemma runeLen_append: "0 < runeLen s \<Longrightarrow> runeLen (take (runeLen s) s @ x) = runeLen s"
  by (cases s) (auto simp: runeLen.simps split: list.splits if_splits)

lemma runeLen_high_bytes:
  "\<not> byte c < 0x80 \<Longrightarrow> 0 < runeLen (c # cs) \<Longrightarrow> b \<in> set (take (runeLen (c # cs)) (c # cs)) \<Longrightarrow> \<not> byte b < 0x80"
  by (auto simp: runeLen.simps split: list.splits if_splits dest: isCont_high)

lemma emit_emit: "emit a (emit b r) = emit (a @ b) r"
  by (cases r) (auto simp: emit_def)

lemma emit_Some: "emit a (Some (s, rest)) = Some (a @ s, rest)"
  by (simp add: emit_def)

lemma emit_Nil: "emit [] r = r"
  by (cases r) (auto simp: emit_def)

lemma escapeQuotes_append: "escapeQuotes (a @ b) = escapeQuotes a @ escapeQuotes b"
  by (induction a) auto

lemma escapeQuotes_id: "CHR 0x22 \<notin> set a \<Longrightarrow> escapeQuotes a = a"
  by (induction a) auto

lemma quote_high: "\<not> byte b < 0x80 \<Longrightarrow> b \<noteq> CHR 0x22"
  by (auto simp: byte_def)

lemma rune_no_quote:
  assumes "\<not> byte c < 0x80" and "0 < runeLen (c # cs)"
  shows "CHR 0x22 \<notin> set (take (runeLen (c # cs)) (c # cs))"
  using runeLen_high_bytes [OF assms] quote_high by blast

text \<open>One rune of a plain string, written by the encoder and read back inside the outer literal.\<close>

lemma unquoteBody_rune:
  assumes "\<not> byte c < 0x80" and "0 < runeLen (c # cs)"
  shows "unquoteBody (take (runeLen (c # cs)) (c # cs) @ x)
         = emit (take (runeLen (c # cs)) (c # cs)) (unquoteBody x)"
proof -
  let ?k = "runeLen (c # cs)"
  obtain t where t: "take ?k (c # cs) = c # t"
    using assms(2) by (cases ?k) auto
  have len: "length (take ?k (c # cs)) = ?k"
    using runeLen_le [of "c # cs"] by simp
  have k: "runeLen (c # t @ x) = ?k"
    using runeLen_append [OF assms(2), of x] t by simp
  have c: "c \<noteq> CHR 0x22" "c \<noteq> CHR 0x5C" "\<not> byte c < 0x20"
    using assms(1) by (auto simp: byte_def)
  have "take ?k (c # t @ x) = c # t" "drop ?k (c # t @ x) = x"
    using len t by (metis append_Cons append_eq_conv_conj)+
  then show ?thesis
    unfolding t using c assms k by (simp add: Let_def)
qed

lemma encodeRune_values:
  "encodeRune 0x3c = ''<''" "encodeRune 0x3e = ''>''" "encodeRune 0x26 = ''&''"
  "encodeRune 0x2028 = [CHR 0xE2, CHR 0x80, CHR 0xA8]"
  "encodeRune 0x2029 = [CHR 0xE2, CHR 0x80, CHR 0xA9]"
  by (simp_all add: encodeRune_def char_of_def bit_Suc_0_iff replacementChar_def)

lemma escapeByte_plain:
  assumes "byte c < 0x80" "c \<noteq> CHR 0x22" "c \<noteq> CHR 0x5C" "0x20 \<le> byte c"
  shows "unquoteBody (escapeQuotes (escapeByte c) @ x) = emit [c] (unquoteBody x)"
proof -
  have nc: "c \<noteq> CHR 0x08" "c \<noteq> CHR 0x0C" "c \<noteq> CHR 0x0A" "c \<noteq> CHR 0x0D" "c \<noteq> CHR 0x09"
    "\<not> byte c < 0x20"
    using assms(4) by (auto simp: byte_def)
  consider "c = CHR ''<''" | "c = CHR ''>''" | "c = CHR ''&''"
    | "c \<noteq> CHR ''<''" "c \<noteq> CHR ''>''" "c \<noteq> CHR ''&''" by blast
  then show ?thesis
  proof cases
    case 1
    then show ?thesis
      by (simp add: escapeByte_def byte_def hexDigit_def getu4_def hexVal_def isDigit_def
            encodeRune_values)
  next
    case 2
    then show ?thesis
      by (simp add: escapeByte_def byte_def hexDigit_def getu4_def hexVal_def isDigit_def
            encodeRune_values)
  next
    case 3
    then show ?thesis
      by (simp add: escapeByte_def byte_def hexDigit_def getu4_def hexVal_def isDigit_def
            encodeRune_values)
  next
    case 4
    then show ?thesis
      using assms nc by (simp add: escapeByte_def)
  qed
qed

lemma unquoteBody_u2028:
  "unquoteBody (CHR 0x5C # ''u2028'' @ x) = emit [CHR 0xE2, CHR 0x80, CHR 0xA8] (unquoteBody x)"
  by (simp add: byte_def getu4_def hexVal_def isDigit_def encodeRune_values)

lemma unquoteBody_u2029:
  "unquoteBody (CHR 0x5C # ''u2029'' @ x) = emit [CHR 0xE2, CHR 0x80, CHR 0xA9] (unquoteBody x)"
  by (simp add: byte_def getu4_def hexVal_def isDigit_def encodeRune_values)

text \<open>
  Inside the outer literal, what the encoder wrote for a plain string (with its quotes
  escaped by the embedding, of which it has none) reads back as the string itself.
\<close>

lemma unquote_encoded_plain:
  "plain s \<Longrightarrow> unquoteBody (escapeQuotes (appendString_loop s) @ x) = emit s (unquoteBody x)"
proof (induction s arbitrary: x rule: plain.induct)
  case 1
  then show ?case by (simp add: emit_Nil)
next
  case (2 c cs)
  show ?case
  proof (cases "byte c < 0x80")
    case True
    with "2.prems" have c: "c \<noteq> CHR 0x22" "c \<noteq> CHR 0x5C" "0x20 \<le> byte c" and cs: "plain cs"
      by simp_all
    have "unquoteBody (escapeQuotes (appendString_loop (c # cs)) @ x)
          = unquoteBody (escapeQuotes (escapeByte c) @ (escapeQuotes (appendString_loop cs) @ x))"
      using True by (simp add: escapeQuotes_append)
    also have "\<dots> = emit [c] (unquoteBody (escapeQuotes (appendString_loop cs) @ x))"
      by (rule escapeByte_plain [OF True c])
    also have "\<dots> = emit [c] (emit cs (unquoteBody x))"
      using "2.IH"(1) [OF True cs] by simp
    finally show ?thesis by (simp add: emit_emit)
  next
    case False
    let ?k = "runeLen (c # cs)"
    let ?r = "take ?k (c # cs)" and ?d = "drop ?k (c # cs)"
    from "2.prems" False have k: "0 < ?k" and rest: "plain ?d"
      by (simp_all add: Let_def split: if_splits)
    have IH: "unquoteBody (escapeQuotes (appendString_loop ?d) @ x) = emit ?d (unquoteBody x)"
      using "2.IH"(2) [OF False refl _ rest] k by simp
    have split: "?r @ ?d = c # cs" by simp
    have "unquoteBody (escapeQuotes (appendString_loop (c # cs)) @ x)
          = emit ?r (unquoteBody (escapeQuotes (appendString_loop ?d) @ x))"
    proof (cases "?r = [CHR 0xE2, CHR 0x80, CHR 0xA8]")
      case True
      have "appendString_loop (c # cs) = [CHR 0x5C] @ ''u2028'' @ appendString_loop ?d"
        using False k True by (simp add: Let_def)
      then show ?thesis
        using unquoteBody_u2028 True by (simp add: escapeQuotes_append)
    next
      case n1: False
      show ?thesis
      proof (cases "?r = [CHR 0xE2, CHR 0x80, CHR 0xA9]")
        case True
        have "appendString_loop (c # cs) = [CHR 0x5C] @ ''u2029'' @ appendString_loop ?d"
          using False k True n1 by (simp add: Let_def)
        then show ?thesis
          using unquoteBody_u2029 True by (simp add: escapeQuotes_append)
      next
        case n2: False
        have "appendString_loop (c # cs) = ?r @ appendString_loop ?d"
          using False k n1 n2 by (simp add: Let_def)
        moreover have "escapeQuotes ?r = ?r"
          by (rule escapeQuotes_id [OF rune_no_quote [OF False k]])
        ultimately show ?thesis
          using unquoteBody_rune [OF False k] by (simp add: escapeQuotes_append)
      qed
    qed
    also have "\<dots> = emit ?r (emit ?d (unquoteBody x))"
      by (simp only: IH)
    finally show ?thesis
      by (simp only: emit_emit split)
  qed
qed

text \<open>A plain string between quotes is a literal of itself.\<close>

lemma unquote_raw_plain: "plain s \<Longrightarrow> unquoteBody (s @ CHR 0x22 # x) = Some (s, x)"
proof (induction s rule: plain.induct)
  case 1
  then show ?case by simp
next
  case (2 c cs)
  show ?case
  proof (cases "byte c < 0x80")
    case True
    with "2.prems" have c: "c \<noteq> CHR 0x22" "c \<noteq> CHR 0x5C" "\<not> byte c < 0x20" and cs: "plain cs"
      by simp_all
    from "2.IH"(1) [OF True cs] c True show ?thesis
      by (simp add: emit_Some)
  next
    case False
    let ?k = "runeLen (c # cs)"
    let ?r = "take ?k (c # cs)" and ?d = "drop ?k (c # cs)"
    from "2.prems" False have k: "0 < ?k" and rest: "plain ?d"
      by (simp_all add: Let_def split: if_splits)
    have IH: "unquoteBody (?d @ CHR 0x22 # x) = Some (?d, x)"
      using "2.IH"(2) [OF False refl _ rest] k by simp
    have "unquoteBody ((c # cs) @ CHR 0x22 # x) = unquoteBody (?r @ (?d @ CHR 0x22 # x))"
      by (metis append_assoc append_take_drop_id)
    also have "\<dots> = emit ?r (unquoteBody (?d @ CHR 0x22 # x))"
      by (rule unquoteBody_rune [OF False k])
    also have "\<dots> = Some (?r @ ?d, x)"
      by (simp only: IH emit_Some)
    finally show ?thesis by simp
  qed
qed

subsection \<open>Integers written and read back\<close>

lemma isDigit_iff: "isDigit c \<longleftrightarrow> 48 \<le> byte c \<and> byte c \<le> 57"
  by (simp add: isDigit_def byte_def less_eq_char_def)

lemma hexDigit_decimal:
  assumes "n < 10"
  shows "byte (hexDigit n) = 48 + n"
proof -
  from assms have "n \<in> {0, 1, 2, 3, 4, 5, 6, 7, 8, 9}"
    by auto
  then show ?thesis
    by (auto simp: hexDigit_def byte_def)
qed

lemma isDigit_hexDigit: "n < 10 \<Longrightarrow> isDigit (hexDigit n)"
  by (simp add: isDigit_iff hexDigit_decimal)

lemma digitVal_hexDigit: "n < 10 \<Longrightarrow> digitVal (hexDigit n) = int n"
  by (simp add: digitVal_def hexDigit_decimal)

lemma formatNat_digits: "list_all isDigit (formatNat n) \<and> formatNat n \<noteq> []"
proof (induction n rule: formatNat.induct)
  case (1 n)
  show ?case
  proof (cases "n < 10")
    case True
    then show ?thesis by (subst (1 2) formatNat.simps) (simp add: isDigit_hexDigit)
  next
    case False
    with 1 show ?thesis
      by (subst (1 2) formatNat.simps) (simp add: isDigit_hexDigit)
  qed
qed

lemma readDigits_snoc: "readDigits (ds @ [c]) = 10 * readDigits ds + digitVal c"
  by (simp add: readDigits_def)

lemma readDigits_formatNat: "readDigits (formatNat n) = int n"
proof (induction n rule: formatNat.induct)
  case (1 n)
  show ?case
  proof (cases "n < 10")
    case True
    then show ?thesis by (subst formatNat.simps) (simp add: readDigits_def digitVal_hexDigit)
  next
    case False
    then have "formatNat n = formatNat (n div 10) @ [hexDigit (n mod 10)]"
      by (subst formatNat.simps) simp
    moreover have "10 * int (n div 10) + int (n mod 10) = int n"
      by presburger
    ultimately show ?thesis
      using 1 False by (simp add: readDigits_snoc digitVal_hexDigit)
  qed
qed

lemma formatNat_hd: "0 < n \<Longrightarrow> hd (formatNat n) \<noteq> CHR ''0''"
proof (induction n rule: formatNat.induct)
  case (1 n)
  show ?case
  proof (cases "n < 10")
    case True
    with "1.prems" have "byte (hd (formatNat n)) = 48 + n"
      by (subst formatNat.simps) (simp add: hexDigit_decimal)
    with "1.prems" show ?thesis by (auto simp: byte_def)
  next
    case False
    then have "formatNat n = formatNat (n div 10) @ [hexDigit (n mod 10)]"
      by (subst formatNat.simps) simp
    moreover have "0 < n div 10" using False by simp
    ultimately show ?thesis
      using "1.IH" [OF False] formatNat_digits [of "n div 10"] by simp
  qed
qed

lemma formatNat_0: "formatNat 0 = ''0''"
  by (subst formatNat.simps) (simp add: hexDigit_def)

lemma ParseInt_formatInt: "ParseInt (formatInt (sint (w :: 64 word))) = Some w"
proof (cases "sint w < 0")
  case True
  let ?n = "nat (- sint w)"
  obtain d ds where ds: "formatNat ?n = d # ds"
    using formatNat_digits [of ?n] by (cases "formatNat ?n") auto
  have d: "d \<noteq> CHR ''-''"
    using formatNat_digits [of ?n] ds by (auto simp: isDigit_iff byte_def)
  have lit: "formatInt (sint w) = CHR ''-'' # formatNat ?n"
    using True by (simp add: formatInt_def)
  have rd: "readDigits (formatNat ?n) = - sint w"
    using True by (simp add: readDigits_formatNat)
  have "- (2 ^ 63) \<le> sint w"
    using sint_ge [of w] by simp
  then have le: "- sint w \<le> 2 ^ 63" by simp
  show ?thesis
    unfolding lit ParseInt_def using formatNat_digits [of ?n] rd le
    by simp
next
  case False
  let ?n = "nat (sint w)"
  obtain d ds where ds: "formatNat ?n = d # ds"
    using formatNat_digits [of ?n] by (cases "formatNat ?n") auto
  have d: "d \<noteq> CHR ''-''"
    using formatNat_digits [of ?n] ds by (auto simp: isDigit_iff byte_def)
  have lit: "formatInt (sint w) = formatNat ?n"
    using False by (simp add: formatInt_def)
  have rd: "readDigits (formatNat ?n) = sint w"
    using False by (simp add: readDigits_formatNat)
  have lt: "sint w < 2 ^ 63"
    using sint_lt [of w] by simp
  show ?thesis
    unfolding lit ParseInt_def using formatNat_digits [of ?n] rd lt d ds
    by simp
qed

subsection \<open>Members of an object, written and read back\<close>

lemma unquote_plain_prefix: "plain s \<Longrightarrow> unquoteBody (s @ x) = emit s (unquoteBody x)"
proof (induction s rule: plain.induct)
  case 1
  then show ?case by (simp add: emit_Nil)
next
  case (2 c cs)
  show ?case
  proof (cases "byte c < 0x80")
    case True
    with "2.prems" have c: "c \<noteq> CHR 0x22" "c \<noteq> CHR 0x5C" "\<not> byte c < 0x20" and cs: "plain cs"
      by simp_all
    from "2.IH"(1) [OF True cs] c True show ?thesis
      by (simp add: emit_emit)
  next
    case False
    let ?k = "runeLen (c # cs)"
    let ?r = "take ?k (c # cs)" and ?d = "drop ?k (c # cs)"
    from "2.prems" False have k: "0 < ?k" and rest: "plain ?d"
      by (simp_all add: Let_def split: if_splits)
    have IH: "unquoteBody (?d @ x) = emit ?d (unquoteBody x)"
      using "2.IH"(2) [OF False refl _ rest] k by simp
    have "unquoteBody ((c # cs) @ x) = unquoteBody (?r @ (?d @ x))"
      by (metis append_assoc append_take_drop_id)
    also have "\<dots> = emit ?r (unquoteBody (?d @ x))"
      by (rule unquoteBody_rune [OF False k])
    also have "\<dots> = emit (?r @ ?d) (unquoteBody x)"
      by (simp only: IH emit_emit)
    finally show ?thesis by simp
  qed
qed

lemma plain_no_quote: "plain s \<Longrightarrow> CHR 0x22 \<notin> set s"
proof (induction s rule: plain.induct)
  case 1
  then show ?case by simp
next
  case (2 c cs)
  show ?case
  proof (cases "byte c < 0x80")
    case True
    with 2 show ?thesis by auto
  next
    case False
    let ?k = "runeLen (c # cs)"
    from "2.prems" False have k: "0 < ?k" and rest: "plain (drop ?k (c # cs))"
      by (simp_all add: Let_def split: if_splits)
    have "CHR 0x22 \<notin> set (drop ?k (c # cs))"
      using "2.IH"(2) [OF False refl _ rest] k by simp
    moreover have "CHR 0x22 \<notin> set (take ?k (c # cs))"
      by (rule rune_no_quote [OF False k])
    ultimately show ?thesis
      by (metis append_take_drop_id set_append Un_iff)
  qed
qed

lemma plain_digits: "list_all isDigit ds \<Longrightarrow> plain ds"
  by (induction ds) (auto simp: isDigit_iff byte_def)

lemma plain_formatInt: "plain (formatInt i)"
  using plain_digits [OF conjunct1 [OF formatNat_digits]]
  by (simp add: formatInt_def byte_def)

text \<open>The fields of a post as the encoder writes them, in order.\<close>

datatype fieldValue = IntField "64 word" | StringField string

definition postFields :: "Post \<Rightarrow> (string \<times> fieldValue) list" where
  "postFields p =
     [(''id'', IntField (Id_post p)), (''publication_id'', IntField (PublicationId p)),
      (''type'', StringField (Type p)), (''slug'', StringField (Slug p)),
      (''post_date'', StringField (PostDate p)), (''canonical_url'', StringField (CanonicalUrl p)),
      (''previous_post_slug'', StringField (PreviousPostSlug p)),
      (''next_post_slug'', StringField (NextPostSlug p)),
      (''cover_image'', StringField (CoverImage p)), (''description'', StringField (Description p))]
     @ (if Subtitle p = [] then [] else [(''subtitle'', StringField (Subtitle p))])
     @ [(''wordcount'', IntField (WordCount p)), (''title'', StringField (Title p)),
        (''body_html'', StringField (BodyHTML p))]"

fun encodeValue :: "(string \<Rightarrow> string) \<Rightarrow> fieldValue \<Rightarrow> string" where
  "encodeValue enc (IntField w) = formatInt (sint w)"
| "encodeValue enc (StringField s) = enc s"

fun encodeMembers :: "(string \<Rightarrow> string) \<Rightarrow> (string \<times> fieldValue) list \<Rightarrow> string" where
  "encodeMembers enc [] = []"
| "encodeMembers enc [(k, v)] = quoted k @ '':'' @ encodeValue enc v"
| "encodeMembers enc ((k, v) # m # ms) =
     quoted k @ '':'' @ encodeValue enc v @ '','' @ encodeMembers enc (m # ms)"

lemma Marshal_PostWrapper_members:
  "Marshal_PostWrapper p =
     ''{'' @ quoted ''post'' @ '':{'' @ encodeMembers appendString (postFields p) @ ''}}''"
  by (simp add: Marshal_PostWrapper_def postFields_def)

fun plainValue :: "fieldValue \<Rightarrow> bool" where
  "plainValue (IntField w) = True"
| "plainValue (StringField s) = plain s"

definition plainMember :: "string \<times> fieldValue \<Rightarrow> bool" where
  "plainMember m = (plain (fst m) \<and> plainValue (snd m))"

lemma unquoteBody_escquote:
  "unquoteBody (CHR 0x5C # CHR 0x22 # x) = emit [CHR 0x22] (unquoteBody x)"
  by simp

lemma unquote_quoted_plain:
  assumes "plain k"
  shows "unquoteBody (escapeQuotes (quoted k) @ x) = emit (quoted k) (unquoteBody x)"
proof -
  have "escapeQuotes k = k"
    by (rule escapeQuotes_id [OF plain_no_quote [OF assms]])
  then have "escapeQuotes (quoted k) @ x = CHR 0x5C # CHR 0x22 # (k @ (CHR 0x5C # CHR 0x22 # x))"
    by (simp add: quoted_def escapeQuotes_append)
  then show ?thesis
    by (simp only: unquoteBody_escquote unquote_plain_prefix [OF assms] emit_emit quoted_def)
qed

lemma unquote_appendString_plain:
  assumes "plain s"
  shows "unquoteBody (escapeQuotes (appendString s) @ x) = emit (quoted s) (unquoteBody x)"
proof -
  have "escapeQuotes (appendString s) @ x
        = CHR 0x5C # CHR 0x22 # (escapeQuotes (appendString_loop s) @ (CHR 0x5C # CHR 0x22 # x))"
    by (simp add: appendString_def escapeQuotes_append)
  then show ?thesis
    by (simp only: unquoteBody_escquote unquote_encoded_plain [OF assms] emit_emit quoted_def)
qed

lemma unquote_value:
  assumes "plainValue v"
  shows "unquoteBody (escapeQuotes (encodeValue appendString v) @ x)
         = emit (encodeValue quoted v) (unquoteBody x)"
proof (cases v)
  case (IntField w)
  have "escapeQuotes (formatInt (sint w)) = formatInt (sint w)"
    by (rule escapeQuotes_id [OF plain_no_quote [OF plain_formatInt]])
  then show ?thesis
    using IntField by (simp add: unquote_plain_prefix [OF plain_formatInt])
next
  case (StringField s)
  with assms show ?thesis
    by (simp add: unquote_appendString_plain)
qed

lemma unquote_colon: "unquoteBody (CHR '':'' # x) = emit '':'' (unquoteBody x)"
  by (simp add: byte_def)

lemma unquote_comma: "unquoteBody (CHR '','' # x) = emit '','' (unquoteBody x)"
  by (simp add: byte_def)

text \<open>
  Inside the outer literal the members the encoder wrote, with their quotes escaped by the
  embedding, read back as the same members with every string written raw.
\<close>

lemma unquote_members:
  "list_all plainMember fs \<Longrightarrow>
   unquoteBody (escapeQuotes (encodeMembers appendString fs) @ x)
   = emit (encodeMembers quoted fs) (unquoteBody x)"
proof (induction fs arbitrary: x rule: induct_list012)
  case 1
  then show ?case by (simp add: emit_Nil)
next
  case (2 m)
  obtain k v where m: "m = (k, v)" by (cases m)
  from 2 have k: "plain k" and v: "plainValue v" by (simp_all add: plainMember_def m)
  show ?case
    unfolding m
    by (simp add: escapeQuotes_append unquote_quoted_plain [OF k] unquote_colon
          unquote_value [OF v] emit_emit del: unquoteBody.simps)
next
  case (3 m m' ms)
  obtain k v where m: "m = (k, v)" by (cases m)
  from "3.prems" have kv: "plainMember (k, v)" and rest: "list_all plainMember (m' # ms)"
    by (simp_all add: m)
  from kv have k: "plain k" and v: "plainValue v"
    by (simp_all add: plainMember_def)
  show ?case
    unfolding m
    by (simp add: escapeQuotes_append unquote_quoted_plain [OF k] unquote_colon unquote_comma
          unquote_value [OF v] "3.IH"(2) [OF rest] emit_emit del: unquoteBody.simps)
qed

subsection \<open>The decoder on the raw members\<close>

lemma skipWS_Cons: "\<not> isWS c \<Longrightarrow> skipWS (c # cs) = c # cs"
  by (simp add: skipWS_def)

lemma takeDigits_append:
  "list_all isDigit ds \<Longrightarrow> \<not> isDigit c \<Longrightarrow> takeDigits (ds @ c # rest) = (ds, c # rest)"
  unfolding takeDigits_def
  by (induction ds) auto

lemma numberInt_formatNat:
  assumes "\<not> isDigit c"
  shows "numberInt (formatNat n @ c # rest) = Some (formatNat n, c # rest)"
proof (cases "n = 0")
  case True
  then show ?thesis by (simp add: formatNat_0 numberInt_def)
next
  case False
  obtain d ds where ds: "formatNat n = d # ds"
    using formatNat_digits [of n] by (cases "formatNat n") auto
  have d: "isDigit d" "list_all isDigit ds"
    using formatNat_digits [of n] ds by simp_all
  have d0: "d \<noteq> CHR ''0''"
    using formatNat_hd [of n] False ds by simp
  show ?thesis
    unfolding ds using d d0 takeDigits_append [OF d(2) assms, of rest]
    by (simp add: numberInt_def)
qed

definition endsNumber :: "char \<Rightarrow> bool" where
  "endsNumber c = (c = CHR '','' \<or> c = CHR ''}'')"

lemma endsNumber_facts:
  assumes "endsNumber c"
  shows "\<not> isDigit c" "c \<noteq> CHR ''.''" "c \<noteq> CHR ''e''" "c \<noteq> CHR ''E''" "\<not> isWS c"
  using assms by (auto simp: endsNumber_def isDigit_iff byte_def isWS_def)

lemma parseNumber_formatInt:
  assumes "endsNumber c"
  shows "parseNumber (formatInt i @ c # rest) = Some (formatInt i, c # rest)"
proof -
  note e = endsNumber_facts [OF assms]
  have tail: "numberFrac (c # rest) = Some ([], c # rest)" "numberExp (c # rest) = Some ([], c # rest)"
    using e by (simp_all add: numberFrac_def numberExp_def)
  show ?thesis
  proof (cases "i < 0")
    case True
    then show ?thesis
      using numberInt_formatNat [OF e(1), of "nat (- i)" rest] tail
      by (simp add: formatInt_def parseNumber_def)
  next
    case False
    let ?n = "nat i"
    obtain d ds where ds: "formatNat ?n = d # ds"
      using formatNat_digits [of ?n] by (cases "formatNat ?n") auto
    have d: "d \<noteq> CHR ''-''"
      using formatNat_digits [of ?n] ds by (auto simp: isDigit_iff byte_def)
    have "parseNumber ((d # ds) @ c # rest) = Some (d # ds, c # rest)"
      using numberInt_formatNat [OF e(1), of ?n rest] tail d
      unfolding ds by (simp add: parseNumber_def)
    then show ?thesis
      using False by (simp add: formatInt_def ds)
  qed
qed

lemma formatInt_first:
  obtains d ds where "formatInt i = d # ds" and "d = CHR ''-'' \<or> isDigit d"
proof (cases "i < 0")
  case True
  then have "formatInt i = CHR ''-'' # formatNat (nat (- i))"
    by (simp add: formatInt_def)
  then show ?thesis using that by blast
next
  case False
  obtain d ds where ds: "formatNat (nat i) = d # ds"
    using formatNat_digits [of "nat i"] by (cases "formatNat (nat i)") auto
  have "isDigit d" using formatNat_digits [of "nat i"] ds by simp
  moreover have "formatInt i = d # ds" using False ds by (simp add: formatInt_def)
  ultimately show ?thesis using that by blast
qed

lemma parseValue_formatInt:
  assumes "endsNumber c"
  shows "parseValue (Suc n) (formatInt i @ c # rest) = Some (JNumber (formatInt i), c # rest)"
proof -
  obtain d ds where ds: "formatInt i = d # ds" and d: "d = CHR ''-'' \<or> isDigit d"
    by (rule formatInt_first)
  from d have nd: "\<not> isWS d" "d \<noteq> CHR 0x22" "d \<noteq> CHR ''{''" "d \<noteq> CHR ''[''"
    "d \<noteq> CHR ''t''" "d \<noteq> CHR ''f''" "d \<noteq> CHR ''n''"
    by (auto simp: isDigit_iff byte_def isWS_def)
  have "parseNumber (d # ds @ c # rest) = Some (d # ds, c # rest)"
    using parseNumber_formatInt [OF assms, of i rest] ds by simp
  then show ?thesis
    unfolding ds using nd by (simp add: skipWS_Cons)
qed

lemma parseValue_quoted:
  assumes "plain s"
  shows "parseValue (Suc n) (quoted s @ rest) = Some (JString s, rest)"
  using unquote_raw_plain [OF assms, of rest]
  by (simp add: quoted_def skipWS_Cons isWS_def)

fun jsonValue :: "fieldValue \<Rightarrow> json" where
  "jsonValue (IntField w) = JNumber (formatInt (sint w))"
| "jsonValue (StringField s) = JString s"

lemma parseValue_value:
  assumes "plainValue v" and "endsNumber c"
  shows "parseValue (Suc n) (encodeValue quoted v @ c # rest) = Some (jsonValue v, c # rest)"
proof (cases v)
  case (IntField w)
  then show ?thesis using parseValue_formatInt [OF assms(2)] by simp
next
  case (StringField s)
  then show ?thesis using parseValue_quoted [of s n "c # rest"] assms(1) by simp
qed

lemma parseMembers_step:
  assumes k: "plain k"
    and v: "parseValue n (vt @ d # after) = Some (jv, d # after)"
    and d: "endsNumber d"
  shows "parseMembers (Suc n) (quoted k @ CHR '':'' # vt @ d # after)
         = (if d = CHR ''}'' then Some ([(k, jv)], after)
            else (case parseMembers n after of
                    None \<Rightarrow> None
                  | Some (ms, rest) \<Rightarrow> Some ((k, jv) # ms, rest)))"
proof -
  have key: "unquoteBody (k @ CHR 0x22 # CHR '':'' # vt @ d # after)
             = Some (k, CHR '':'' # vt @ d # after)"
    by (rule unquote_raw_plain [OF k])
  have q: "quoted k @ CHR '':'' # vt @ d # after = CHR 0x22 # k @ CHR 0x22 # CHR '':'' # vt @ d # after"
    by (simp add: quoted_def)
  have ws: "skipWS (d # after) = d # after"
    using endsNumber_facts(5) [OF d] by (simp add: skipWS_Cons)
  show ?thesis
    unfolding q
    apply (subst parseMembers.simps(2))
    using d
    apply (simp only: skipWS_Cons isWS_def key v ws list.case option.case prod.case
             char.inject simp_thms if_True if_False endsNumber_def)
    apply auto
    done
qed

text \<open>
  The members written raw, up to the closing brace, parse to the list of their keys and
  values, given one unit of fuel for every member and one after.
\<close>

lemma parseMembers_members:
  "fs \<noteq> [] \<Longrightarrow> list_all plainMember fs \<Longrightarrow> length fs \<le> n \<Longrightarrow>
   parseMembers (Suc n) (encodeMembers quoted fs @ CHR ''}'' # rest)
   = Some (map (\<lambda>(k, v). (k, jsonValue v)) fs, rest)"
proof (induction fs arbitrary: n rule: induct_list012)
  case 1
  then show ?case by simp
next
  case (2 m)
  obtain k v where m: "m = (k, v)" by (cases m)
  from "2.prems" have k: "plain k" and v: "plainValue v"
    by (simp_all add: plainMember_def m)
  from "2.prems" obtain n' where n: "n = Suc n'" by (cases n) auto
  have e: "endsNumber CHR ''}''" by (simp add: endsNumber_def)
  show ?case
    unfolding m n
    using parseMembers_step [OF k parseValue_value [OF v e, of n' rest] e]
    by simp
next
  case (3 m m' ms)
  obtain k v where m: "m = (k, v)" by (cases m)
  from "3.prems" have kv: "plainMember (k, v)" and rest: "list_all plainMember (m' # ms)"
    by (simp_all add: m)
  from kv have k: "plain k" and v: "plainValue v"
    by (simp_all add: plainMember_def)
  from "3.prems" obtain n' where n: "n = Suc n'" and n': "length (m' # ms) \<le> n'"
    by (cases n) auto
  have e: "endsNumber CHR '',''" by (simp add: endsNumber_def)
  let ?after = "encodeMembers quoted (m' # ms) @ CHR ''}'' # rest"
  have IH: "parseMembers (Suc n') ?after = Some (map (\<lambda>(k, v). (k, jsonValue v)) (m' # ms), rest)"
    by (rule "3.IH"(2) [OF _ rest n']) simp
  have "encodeMembers quoted (m # m' # ms) @ CHR ''}'' # rest
        = quoted k @ CHR '':'' # encodeValue quoted v @ CHR '','' # ?after"
    by (simp add: m)
  then show ?case
    using parseMembers_step [OF k parseValue_value [OF v e, of n' ?after] e] IH
    by (simp add: m n del: parseMembers.simps parseValue.simps encodeMembers.simps)
qed

subsection \<open>The round trip through the page of the tests\<close>

definition plainPost :: "Post \<Rightarrow> bool" where
  "plainPost p =
     (plain (Type p) \<and> plain (Slug p) \<and> plain (PostDate p) \<and> plain (CanonicalUrl p)
      \<and> plain (PreviousPostSlug p) \<and> plain (NextPostSlug p) \<and> plain (CoverImage p)
      \<and> plain (Description p) \<and> plain (Subtitle p) \<and> plain (Title p) \<and> plain (BodyHTML p))"

text \<open>The document of a post with every string written raw between its quotes.\<close>

definition rawJSON :: "Post \<Rightarrow> string" where
  "rawJSON p = ''{'' @ quoted ''post'' @ '':{'' @ encodeMembers quoted (postFields p) @ ''}}''"

lemma plain_keys:
  "plain ''post''" "plain ''id''" "plain ''publication_id''" "plain ''type''" "plain ''slug''"
  "plain ''post_date''" "plain ''canonical_url''" "plain ''previous_post_slug''"
  "plain ''next_post_slug''" "plain ''cover_image''" "plain ''description''" "plain ''subtitle''"
  "plain ''wordcount''" "plain ''title''" "plain ''body_html''"
  by (simp_all add: byte_def)

lemma plainMember_postFields: "plainPost p \<Longrightarrow> list_all plainMember (postFields p)"
  by (simp add: plainPost_def postFields_def plainMember_def plain_keys del: plain.simps)

lemma postFields_nonempty: "postFields p \<noteq> []" and postFields_length: "length (postFields p) \<le> 14"
  by (simp_all add: postFields_def)

lemma unquote_payload:
  assumes "plainPost p"
  shows "unquoteBody (escapeJSONForJS p @ [CHR 0x22]) = Some (rawJSON p, [])"
proof -
  let ?M = "escapeQuotes (encodeMembers appendString (postFields p))"
  have open1: "unquoteBody (CHR ''{'' # x) = emit ''{'' (unquoteBody x)" for x
    by (simp add: byte_def)
  have close1: "unquoteBody (CHR ''}'' # x) = emit ''}'' (unquoteBody x)" for x
    by (simp add: byte_def)
  have lit: "escapeQuotes ''{'' = ''{''" "escapeQuotes '':{'' = '':{''" "escapeQuotes ''}}'' = ''}}''"
    by simp_all
  have "escapeJSONForJS p
        = ''{'' @ escapeQuotes (quoted ''post'') @ '':{'' @ ?M @ ''}}''"
    by (simp only: escapeJSONForJS_def Marshal_PostWrapper_members escapeQuotes_append lit)
  then have "escapeJSONForJS p @ [CHR 0x22]
        = CHR ''{'' # (escapeQuotes (quoted ''post'') @ (CHR '':'' # CHR ''{'' #
            (?M @ (CHR ''}'' # CHR ''}'' # [CHR 0x22]))))"
    by (simp del: escapeQuotes.simps)
  then have "unquoteBody (escapeJSONForJS p @ [CHR 0x22])
        = emit (''{'' @ quoted ''post'' @ '':'' @ ''{'' @ encodeMembers quoted (postFields p)
                  @ ''}'' @ ''}'')
            (unquoteBody [CHR 0x22])"
    by (simp only: open1 close1 unquote_colon unquote_quoted_plain [OF plain_keys(1)]
          unquote_members [OF plainMember_postFields [OF assms]] emit_emit append_assoc)
  then show ?thesis
    by (simp add: emit_def rawJSON_def)
qed

lemma parseValue_object:
  assumes "parseMembers n (CHR 0x22 # t) = Some (ms, rest)"
  shows "parseValue (Suc n) (CHR ''{'' # CHR 0x22 # t) = Some (JObject ms, rest)"
  by (subst parseValue.simps(2))
     (simp add: skipWS_Cons isWS_def assms del: parseMembers.simps parseValue.simps)

lemma encodeMembers_quote:
  "fs \<noteq> [] \<Longrightarrow> \<exists>t. encodeMembers quoted fs = CHR 0x22 # t"
  by (induction fs rule: induct_list012) (auto simp: quoted_def)

lemma encodeMembers_length: "length fs \<le> length (encodeMembers enc fs)"
  by (induction fs rule: induct_list012) (auto simp: quoted_def)

lemma postFields_length_ge: "13 \<le> length (postFields p)"
  by (simp add: postFields_def)

lemma parseJSON_rawJSON:
  assumes "plainPost p"
  shows "parseJSON (rawJSON p)
         = Some (JObject [(''post'', JObject (map (\<lambda>(k, v). (k, jsonValue v)) (postFields p)))])"
proof -
  define M where "M = encodeMembers quoted (postFields p)"
  define js where "js = map (\<lambda>(k, v). (k, jsonValue v)) (postFields p)"
  obtain t where t: "M = CHR 0x22 # t"
    using encodeMembers_quote [OF postFields_nonempty, of p] unfolding M_def by blast
  have raw: "rawJSON p = CHR ''{'' # CHR 0x22 # ''post'' @ CHR 0x22 # CHR '':'' # CHR ''{'' # M @ ''}}''"
    by (simp add: rawJSON_def quoted_def M_def)
  have "13 \<le> length M"
    using encodeMembers_length [of "postFields p" quoted] postFields_length_ge [of p]
    unfolding M_def by linarith
  then have "17 \<le> length (rawJSON p)"
    unfolding raw by simp
  then obtain n where n: "length (rawJSON p) = 17 + n"
    using le_Suc_ex by blast
  have inner: "parseMembers (Suc (14 + n)) (M @ CHR ''}'' # ''}'') = Some (js, ''}'')"
    unfolding M_def js_def
    by (rule parseMembers_members [OF postFields_nonempty plainMember_postFields [OF assms]])
       (use postFields_length [of p] in simp)
  have obj: "parseValue (Suc (Suc (14 + n))) (CHR ''{'' # CHR 0x22 # (t @ CHR ''}'' # ''}''))
             = Some (JObject js, ''}'')"
    by (rule parseValue_object) (use inner t in simp)
  have e: "endsNumber CHR ''}''" by (simp add: endsNumber_def)
  have obj': "parseValue (Suc (Suc (14 + n))) ((CHR ''{'' # M @ ''}'') @ CHR ''}'' # [])
             = Some (JObject js, CHR ''}'' # [])"
    using obj by (simp add: t del: parseValue.simps)
  have outer: "parseMembers (Suc (Suc (Suc (14 + n))))
                 (quoted ''post'' @ CHR '':'' # (CHR ''{'' # M @ ''}'') @ CHR ''}'' # [])
               = Some ([(''post'', JObject js)], [])"
    using parseMembers_step [OF plain_keys(1) obj' e]
    by (simp del: parseMembers.simps parseValue.simps)
  have outer': "parseMembers (17 + n) (CHR 0x22 # (''post'' @ CHR 0x22 # CHR '':'' # CHR ''{'' # M @ ''}}''))
               = Some ([(''post'', JObject js)], [])"
  proof -
    have "17 + n = Suc (Suc (Suc (14 + n)))" by simp
    moreover have "CHR 0x22 # (''post'' @ CHR 0x22 # CHR '':'' # CHR ''{'' # M @ ''}}'')
          = quoted ''post'' @ CHR '':'' # (CHR ''{'' # M @ ''}'') @ CHR ''}'' # []"
      by (simp add: quoted_def)
    ultimately show ?thesis using outer by (simp only:)
  qed
  have "Suc (length (rawJSON p)) = Suc (17 + n)"
    using n by simp
  moreover have "parseValue (Suc (17 + n)) (rawJSON p)
               = Some (JObject [(''post'', JObject js)], [])"
    unfolding raw by (rule parseValue_object [OF outer']) 
  ultimately have whole: "parseValue (Suc (length (rawJSON p))) (rawJSON p)
               = Some (JObject [(''post'', JObject js)], [])"
    by (simp only:)
  then show ?thesis
    by (simp add: parseJSON_def skipWS_def js_def)
qed

lemma foldName_keys:
  "foldName ''post'' = ''post''" "foldName ''id'' = ''id''"
  "foldName ''publication_id'' = ''publication_id''" "foldName ''type'' = ''type''"
  "foldName ''slug'' = ''slug''" "foldName ''post_date'' = ''post_date''"
  "foldName ''canonical_url'' = ''canonical_url''"
  "foldName ''previous_post_slug'' = ''previous_post_slug''"
  "foldName ''next_post_slug'' = ''next_post_slug''" "foldName ''cover_image'' = ''cover_image''"
  "foldName ''description'' = ''description''" "foldName ''subtitle'' = ''subtitle''"
  "foldName ''wordcount'' = ''wordcount''" "foldName ''title'' = ''title''"
  "foldName ''body_html'' = ''body_html''"
  by (simp_all add: toLower_def less_eq_char_def)

lemma decodeField_keys:
  "decodeField ''id'' (JNumber (formatInt (sint w))) q = (q\<lparr> Id_post := w \<rparr>, None)"
  "decodeField ''publication_id'' (JNumber (formatInt (sint w))) q = (q\<lparr> PublicationId := w \<rparr>, None)"
  "decodeField ''type'' (JString s) q = (q\<lparr> Type := s \<rparr>, None)"
  "decodeField ''slug'' (JString s) q = (q\<lparr> Slug := s \<rparr>, None)"
  "decodeField ''post_date'' (JString s) q = (q\<lparr> PostDate := s \<rparr>, None)"
  "decodeField ''canonical_url'' (JString s) q = (q\<lparr> CanonicalUrl := s \<rparr>, None)"
  "decodeField ''previous_post_slug'' (JString s) q = (q\<lparr> PreviousPostSlug := s \<rparr>, None)"
  "decodeField ''next_post_slug'' (JString s) q = (q\<lparr> NextPostSlug := s \<rparr>, None)"
  "decodeField ''cover_image'' (JString s) q = (q\<lparr> CoverImage := s \<rparr>, None)"
  "decodeField ''description'' (JString s) q = (q\<lparr> Description := s \<rparr>, None)"
  "decodeField ''subtitle'' (JString s) q = (q\<lparr> Subtitle := s \<rparr>, None)"
  "decodeField ''wordcount'' (JNumber (formatInt (sint w))) q = (q\<lparr> WordCount := w \<rparr>, None)"
  "decodeField ''title'' (JString s) q = (q\<lparr> Title := s \<rparr>, None)"
  "decodeField ''body_html'' (JString s) q = (q\<lparr> BodyHTML := s \<rparr>, None)"
  unfolding decodeField_def Let_def foldName_keys
  by (simp_all add: storeInt_def storeString_def ParseInt_formatInt)

lemma decodePost_postFields:
  "decodePost (map (\<lambda>(k, v). (k, jsonValue v)) (postFields p)) (zeroPost, None) = (p, None)"
  by (cases p)
     (simp add: postFields_def decodeField_keys saveError_def zeroPost_def del: foldName.simps)

lemma Unmarshal_PostWrapper_rawJSON:
  assumes "plainPost p"
  shows "json_Unmarshal_PostWrapper (rawJSON p) = Inr p"
  by (simp add: json_Unmarshal_PostWrapper_def parseJSON_rawJSON [OF assms] foldName_keys
        decodePost_postFields del: foldName.simps)

lemma Unmarshal_string_payload:
  assumes "plainPost p"
  shows "json_Unmarshal_string ([CHR 0x22] @ escapeJSONForJS p @ [CHR 0x22]) = Inr (rawJSON p)"
proof -
  have "parseValue (Suc n) (CHR 0x22 # escapeJSONForJS p @ [CHR 0x22]) = Some (JString (rawJSON p), [])"
    for n
    by (subst parseValue.simps(2))
       (simp add: skipWS_Cons isWS_def unquote_payload [OF assms]
          del: parseValue.simps unquoteBody.simps)
  then show ?thesis
    by (simp add: json_Unmarshal_string_def parseJSON_def skipWS_def del: parseValue.simps)
qed

subsection \<open>The payload found in the script\<close>

lemma Index_first:
  "c \<notin> set a \<Longrightarrow> Index (a @ (c # substr) @ rest) (c # substr) = int (length a)"
  by (induction a) (auto simp: Let_def)

lemma LastIndex_absent: "q \<notin> set s \<Longrightarrow> LastIndex s (q # substr) = -1"
  by (induction s) (auto simp: Let_def)

lemma LastIndex_last:
  assumes "q \<notin> set substr" and "q \<notin> set tail"
  shows "LastIndex (x @ (q # substr) @ tail) (q # substr) = int (length x)"
proof (induction x)
  case Nil
  have "LastIndex (substr @ tail) (q # substr) = -1"
    by (rule LastIndex_absent) (use assms in simp)
  then show ?case by (simp add: Let_def)
next
  case (Cons y x)
  then show ?case by (simp add: Let_def)
qed

lemma extractJSONString_mock:
  assumes "payload \<noteq> []"
  shows "extractJSONString_each [mockScript payload] = (payload, True)"
proof -
  let ?a = "CHR 0x0A # ''    window._preloads = ''"
  let ?open = \<open>''JSON.parse("''\<close> and ?close = \<open>''")''\<close>
  let ?tail = "CHR 0x0A # ''  ''"
  let ?content = "mockScript payload"
  have c1: "?content = ?a @ ?open @ (payload @ ?close @ ?tail)"
    by (simp add: mockScript_def)
  have c2: "?content = (?a @ ?open @ payload) @ ?close @ ?tail"
    by (simp add: mockScript_def)
  have w: "Contains ?content ''window._preloads''"
  proof -
    have "?content = (CHR 0x0A # ''    '') @ ''window._preloads'' @ ('' = '' @ ?open @ payload @ ?close @ ?tail)"
      by (simp add: mockScript_def)
    then show ?thesis
      unfolding Contains_iff by (metis sublist_appendI)
  qed
  have j: "Contains ?content ''JSON.parse(''"
  proof -
    have "?content = ?a @ ''JSON.parse('' @ ([CHR 0x22] @ payload @ ?close @ ?tail)"
      by (simp add: mockScript_def)
    then show ?thesis
      unfolding Contains_iff by (metis sublist_appendI)
  qed
  have i: "Index ?content ?open = int (length ?a)"
    unfolding c1 by (rule Index_first) simp
  have l: "LastIndex ?content ?close = int (length (?a @ ?open @ payload))"
    unfolding c2 by (rule LastIndex_last) simp_all
  have s: "slice ?content (int (length ?a) + 12) (int (length (?a @ ?open @ payload))) = payload"
  proof -
    have "nat (int (length ?a) + 12) = length (?a @ ?open)" by simp
    moreover have "nat (int (length (?a @ ?open @ payload)) - (int (length ?a) + 12)) = length payload"
      by simp
    moreover have "?content = (?a @ ?open) @ payload @ ?close @ ?tail"
      by (simp add: mockScript_def)
    ultimately show ?thesis
      unfolding slice_def by (metis append_eq_conv_conj)
  qed
  have lt: "\<not> int (length (?a @ ?open @ payload)) \<le> int (length ?a) + 12"
    using assms by simp
  have len: \<open>int (length ''JSON.parse("'') = 12\<close> by simp
  show ?thesis
    apply (subst extractJSONString_each.simps(2))
    apply (simp only: w j i l s len lt Let_def simp_thms if_True if_False)
    apply simp
    done
qed


lemma escapeJSONForJS_nonempty: "escapeJSONForJS p \<noteq> []"
  by (simp add: escapeJSONForJS_def Marshal_PostWrapper_def)

text \<open>
  A page whose only script holds the payload of a plain post: the extractor decodes the
  post and enriches it from the page.
\<close>

lemma ExtractPost_payload_page:
  assumes "plainPost p"
    and "FetchURL e ctx pageUrl = Inr body"
    and "parseDocument body = Inr doc"
    and "scripts doc = [mockScript (escapeJSONForJS p)]"
  shows "ExtractPost (goLibrary parseDocument buildURL) e ctx pageUrl = (enrich doc p, None)"
proof -
  have x: "extractJSONString doc = Inr (escapeJSONForJS p)"
    by (simp add: extractJSONString_def assms(4)
          extractJSONString_mock [OF escapeJSONForJS_nonempty]
          del: extractJSONString_each.simps)
  show ?thesis
    unfolding ExtractPost_def
    by (simp add: assms(2,3) goLibrary_def x Unmarshal_string_payload [OF assms(1), simplified]
          ToPost_def Unmarshal_PostWrapper_rawJSON [OF assms(1)])
qed


lemma plainPost_createSamplePost: "plainPost createSamplePost"
  by (simp add: plainPost_def createSamplePost_def byte_def)


subsection \<open>Posts that do not come back\<close>

















subsection \<open>The claims about the extractor at the pages of the tests\<close>

text \<open>
  The page of the test \<open>malformedScript\<close>: its script opens the call and never closes it.
\<close>

definition malformedScriptPage :: Document where
  \<open>malformedScriptPage =
     \<lparr> scripts = [[CHR 0x0A] @ ''  window._preloads = JSON.parse("incomplete'' @ [CHR 0x0A]],
       subtitleText = [], ogImage = None, urlEntries = [] \<rparr>\<close>

theorem ExtractPost_no_marker_witness:
  "ExtractPost (goLibrary (\<lambda>body. Inr malformedScriptPage) Inr)
     \<lparr> FetchURL = (\<lambda>ctx url. Inr []) \<rparr> (\<lambda>k. False) ''https://example.substack.com/p/broken''
   = (zeroPost, Some (FailedToExtractPostData FailedToExtractJSONString))"
proof (rule ExtractPost_no_marker [where body = "[]" and doc = malformedScriptPage])
  show "FetchURL \<lparr> FetchURL = (\<lambda>ctx url. Inr []) \<rparr> (\<lambda>k. False) ''https://example.substack.com/p/broken'' = Inr []"
    by simp
  show "NewDocumentFromReader (goLibrary (\<lambda>body. Inr malformedScriptPage) Inr) [] = Inr malformedScriptPage"
    by (simp add: goLibrary_def)
  show "\<forall>content \<in> set (scripts malformedScriptPage). \<not> hasPreloadMarker content"
    by (simp add: malformedScriptPage_def hasPreloadMarker_code Contains_def)
qed




text \<open>
  The pages of the test \<open>TestEnhancedPostExtraction\<close>: the page of a post with a
  \<open>.subtitle\<close> element and an \<open>og:image\<close> element.
\<close>

definition enhancedPage :: "Post \<Rightarrow> string \<Rightarrow> string \<Rightarrow> Document" where
  "enhancedPage post subtitle ogImg =
     (createMockSubstackHTML post)\<lparr> subtitleText := subtitle, ogImage := Some ogImg \<rparr>"

lemma plainPost_cleared:
  "plainPost (createSamplePost\<lparr> Subtitle := [], CoverImage := [] \<rparr>)"
  by (simp add: plainPost_def createSamplePost_def byte_def)

lemma TrimSpace_subtitle:
  "TrimSpace ''   This is the subtitle from HTML   '' = ''This is the subtitle from HTML''"
  by code_simp

lemma TrimSpace_blank: "TrimSpace ''   '' = []"
  by code_simp

theorem ExtractPost_enrichment_witness:
  "\<exists>q. ExtractPost
         (goLibrary (\<lambda>body. Inr (enhancedPage (createSamplePost\<lparr> Subtitle := [], CoverImage := [] \<rparr>)
            ''   This is the subtitle from HTML   '' ''https://example.com/og-image.jpg'')) Inr)
         \<lparr> FetchURL = (\<lambda>ctx url. Inr []) \<rparr> (\<lambda>k. False) ''https://example.substack.com/p/test-post''
       = (q, None)
     \<and> Subtitle q = ''This is the subtitle from HTML''
     \<and> CoverImage q = ''https://example.com/og-image.jpg''
     \<and> q\<lparr> Subtitle := [], CoverImage := [] \<rparr> = createSamplePost\<lparr> Subtitle := [], CoverImage := [] \<rparr>"
proof -
  let ?p = "createSamplePost\<lparr> Subtitle := [], CoverImage := [] \<rparr>"
  let ?doc = "enhancedPage ?p ''   This is the subtitle from HTML   '' ''https://example.com/og-image.jpg''"
  let ?lib = "goLibrary (\<lambda>body. Inr ?doc) Inr"
  let ?e = "\<lparr> FetchURL = (\<lambda>ctx url. Inr []) \<rparr>"
  have 1: "FetchURL ?e (\<lambda>k. False) ''https://example.substack.com/p/test-post'' = Inr []"
    by simp
  have 2: "NewDocumentFromReader ?lib [] = Inr ?doc"
    by (simp add: goLibrary_def)
  have 3: "extractJSONString ?doc = Inr (escapeJSONForJS ?p)"
    by (simp add: extractJSONString_def enhancedPage_def createMockSubstackHTML_def
          extractJSONString_mock [OF escapeJSONForJS_nonempty]
          del: extractJSONString_each.simps)
  have 4: "Unmarshal_string ?lib ([CHR 0x22] @ escapeJSONForJS ?p @ [CHR 0x22]) = Inr (rawJSON ?p)"
    using Unmarshal_string_payload [OF plainPost_cleared] by (simp add: goLibrary_def)
  have 5: "ToPost ?lib (rawJSON ?p) = Inr ?p"
    using Unmarshal_PostWrapper_rawJSON [OF plainPost_cleared] by (simp add: ToPost_def goLibrary_def)
  have s: "subtitleText ?doc = ''   This is the subtitle from HTML   ''"
    and i: "ogImage ?doc = Some ''https://example.com/og-image.jpg''"
    by (simp_all add: enhancedPage_def)
  from ExtractPost_enrichment [OF 1 2 3 4 5] show ?thesis
    unfolding s i TrimSpace_subtitle by simp
qed

text \<open>
  The sample post of the tests, whose subtitle is \<open>Test subtitle\<close>, on a page with a
  \<open>.subtitle\<close> element: the decoded subtitle is replaced by the trimmed text of the element,
  and by the empty string when the element holds white space only.
\<close>

theorem ExtractPost_enrichment_counterexample:
  "Subtitle createSamplePost = ''Test subtitle''
   \<and> ExtractPost
         (goLibrary (\<lambda>body. Inr (enhancedPage createSamplePost
            ''   This is the subtitle from HTML   '' ''https://example.com/og-image.jpg'')) Inr)
         \<lparr> FetchURL = (\<lambda>ctx url. Inr []) \<rparr> (\<lambda>k. False) ''https://example.substack.com/p/test-post''
       = (createSamplePost\<lparr> Subtitle := ''This is the subtitle from HTML'' \<rparr>, None)
   \<and> ExtractPost
         (goLibrary (\<lambda>body. Inr (enhancedPage createSamplePost
            ''   '' ''https://example.com/og-image.jpg'')) Inr)
         \<lparr> FetchURL = (\<lambda>ctx url. Inr []) \<rparr> (\<lambda>k. False) ''https://example.substack.com/p/test-post''
       = (createSamplePost\<lparr> Subtitle := [] \<rparr>, None)"
proof -
  have page: "ExtractPost (goLibrary (\<lambda>body. Inr (enhancedPage createSamplePost sub img)) Inr)
         \<lparr> FetchURL = (\<lambda>ctx url. Inr []) \<rparr> (\<lambda>k. False) ''https://example.substack.com/p/test-post''
       = (enrich (enhancedPage createSamplePost sub img) createSamplePost, None)" for sub img
    by (rule ExtractPost_payload_page [where body = "[]", OF plainPost_createSamplePost])
       (simp_all add: enhancedPage_def createMockSubstackHTML_def)
  have c: "CoverImage createSamplePost \<noteq> []"
    by (simp add: createSamplePost_def)
  show ?thesis
    unfolding page
    by (simp add: enrich_def enhancedPage_def TrimSpace_subtitle TrimSpace_blank c)
       (simp add: createSamplePost_def)
qed

section \<open>The order of the archive\<close>

subsection \<open>\<open>sortEntries\<close> and \<open>AddEntry\<close>\<close>

text \<open>
  The function that \<open>sortEntries\<close> passes to \<open>sort.Slice\<close>, on the two entries that its
  indices denote: both dates are parsed; if either fails the titles are compared, as Go
  compares strings, byte by byte; otherwise the first entry goes before the second when its
  date is after the other.
\<close>

definition sortEntries_less :: "(string \<Rightarrow> Time option) \<Rightarrow> ArchiveEntry \<Rightarrow> ArchiveEntry \<Rightarrow> bool" where
  "sortEntries_less time_Parse entryI entryJ =
     (case time_Parse (PostDate (Post entryI)) of
        None \<Rightarrow> Title (Post entryI) < Title (Post entryJ)
      | Some dateI \<Rightarrow>
          (case time_Parse (PostDate (Post entryJ)) of
             None \<Rightarrow> Title (Post entryI) < Title (Post entryJ)
           | Some dateJ \<Rightarrow> After dateI dateJ))"

text \<open>
  \<open>sort.Slice\<close> runs \<open>pdqsort_func\<close>, which sorts a slice of at most 12 elements by
  \<open>insertionSortLessFunc\<close>: each element in turn is swapped towards the front as long as it
  is less than the element before it. \<open>insertLess\<close> is that inner loop, on the elements
  before the position in reverse order. The algorithm for longer slices is a parameter.
\<close>

fun insertLess :: "('a \<Rightarrow> 'a \<Rightarrow> bool) \<Rightarrow> 'a \<Rightarrow> 'a list \<Rightarrow> 'a list" where
  "insertLess less_f x [] = [x]"
| "insertLess less_f x (y # ys) =
     (if less_f x y then y # insertLess less_f x ys else x # y # ys)"

definition insertionSortLessFunc :: "('a \<Rightarrow> 'a \<Rightarrow> bool) \<Rightarrow> 'a list \<Rightarrow> 'a list" where
  "insertionSortLessFunc less_f data = rev (foldl (\<lambda>before x. insertLess less_f x before) [] data)"

definition sort_Slice ::
  "(('a \<Rightarrow> 'a \<Rightarrow> bool) \<Rightarrow> 'a list \<Rightarrow> 'a list) \<Rightarrow> ('a \<Rightarrow> 'a \<Rightarrow> bool) \<Rightarrow> 'a list \<Rightarrow> 'a list" where
  "sort_Slice pdqsort less_f data =
     (if length data \<le> 12 then insertionSortLessFunc less_f data else pdqsort less_f data)"

type_synonym sorter = "(ArchiveEntry \<Rightarrow> ArchiveEntry \<Rightarrow> bool) \<Rightarrow> ArchiveEntry list \<Rightarrow> ArchiveEntry list"

definition sortEntries :: "sorter \<Rightarrow> (string \<Rightarrow> Time option) \<Rightarrow> Archive \<Rightarrow> Archive" where
  "sortEntries pdqsort time_Parse a =
     a\<lparr> Entries := sort_Slice pdqsort (sortEntries_less time_Parse) (Entries a) \<rparr>"

definition AddEntry ::
  "sorter \<Rightarrow> (string \<Rightarrow> Time option) \<Rightarrow> Archive \<Rightarrow> Post \<Rightarrow> path \<Rightarrow> Time \<Rightarrow> Archive" where
  "AddEntry pdqsort time_Parse a post filePath downloadTime =
     (let entry = \<lparr> Post = post, FilePath = filePath, DownloadTime = downloadTime \<rparr>
      in sortEntries pdqsort time_Parse (a\<lparr> Entries := Entries a @ [entry] \<rparr>))"

text \<open>
  What the documentation of \<open>sort\<close> promises of the algorithm for long slices: the result
  is a rearrangement of the slice, and it is in order whenever the function is a strict
  weak ordering of the elements.
\<close>

definition strictWeakOrdering :: "'a set \<Rightarrow> ('a \<Rightarrow> 'a \<Rightarrow> bool) \<Rightarrow> bool" where
  "strictWeakOrdering A less_f =
     ((\<forall>x\<in>A. \<not> less_f x x)
      \<and> (\<forall>x\<in>A. \<forall>y\<in>A. \<forall>z\<in>A. less_f x y \<and> less_f y z \<longrightarrow> less_f x z)
      \<and> (\<forall>x\<in>A. \<forall>y\<in>A. \<forall>z\<in>A. \<not> less_f x y \<and> \<not> less_f y z \<longrightarrow> \<not> less_f x z))"

definition sortsSlices :: "(('a \<Rightarrow> 'a \<Rightarrow> bool) \<Rightarrow> 'a list \<Rightarrow> 'a list) \<Rightarrow> bool" where
  "sortsSlices pdqsort =
     (\<forall>less_f data.
        mset (pdqsort less_f data) = mset data
        \<and> (strictWeakOrdering (set data) less_f
             \<longrightarrow> sorted_wrt (\<lambda>x y. \<not> less_f y x) (pdqsort less_f data)))"

text \<open>The calls of \<open>AddEntry\<close> one after the other on a new archive.\<close>

definition addAll :: "sorter \<Rightarrow> (string \<Rightarrow> Time option) \<Rightarrow> (Post \<times> path \<times> Time) list \<Rightarrow> Archive" where
  "addAll pdqsort time_Parse calls =
     foldl (\<lambda>a (post, filePath, downloadTime). AddEntry pdqsort time_Parse a post filePath downloadTime)
       NewArchive calls"

definition entryOf :: "Post \<times> path \<times> Time \<Rightarrow> ArchiveEntry" where
  "entryOf call = (case call of (post, filePath, downloadTime) \<Rightarrow>
     \<lparr> Post = post, FilePath = filePath, DownloadTime = downloadTime \<rparr>)"

definition parses :: "(string \<Rightarrow> Time option) \<Rightarrow> ArchiveEntry \<Rightarrow> bool" where
  "parses time_Parse entry = (time_Parse (PostDate (Post entry)) \<noteq> None)"

definition instant :: "(string \<Rightarrow> Time option) \<Rightarrow> ArchiveEntry \<Rightarrow> int" where
  "instant time_Parse entry =
     (case time_Parse (PostDate (Post entry)) of Some date \<Rightarrow> unixNano date | None \<Rightarrow> 0)"

subsection \<open>Insertion sort\<close>

lemma insertLess_mset: "mset (insertLess less_f x ys) = add_mset x (mset ys)"
  by (induction ys) simp_all

lemma insertLess_set: "set (insertLess less_f x ys) = insert x (set ys)"
  by (induction ys) auto

lemma insertLess_foldl_mset:
  "mset (foldl (\<lambda>before x. insertLess less_f x before) acc data) = mset acc + mset data"
  by (induction data arbitrary: acc) (simp_all add: insertLess_mset)

lemma insertionSortLessFunc_mset: "mset (insertionSortLessFunc less_f data) = mset data"
  by (simp add: insertionSortLessFunc_def insertLess_foldl_mset)

lemma insertLess_sorted:
  assumes "strictWeakOrdering A less_f" and "x \<in> A" and "set ys \<subseteq> A"
    and "sorted_wrt (\<lambda>u v. \<not> less_f u v) ys"
  shows "sorted_wrt (\<lambda>u v. \<not> less_f u v) (insertLess less_f x ys)"
  using assms(3,4)
proof (induction ys)
  case Nil
  then show ?case by simp
next
  case (Cons y ys)
  have y: "y \<in> A" and ys: "set ys \<subseteq> A"
    using Cons.prems(1) by auto
  show ?case
  proof (cases "less_f x y")
    case True
    have "\<not> less_f y x"
    proof
      assume "less_f y x"
      with True assms(1) \<open>x \<in> A\<close> y have "less_f x x"
        unfolding strictWeakOrdering_def by blast
      with assms(1) \<open>x \<in> A\<close> show False
        unfolding strictWeakOrdering_def by blast
    qed
    with True Cons show ?thesis
      by (auto simp: insertLess_set)
  next
    case False
    have "\<not> less_f x z" if "z \<in> set ys" for z
    proof -
      from Cons.prems(2) that have "\<not> less_f y z" by simp
      with False assms(1) \<open>x \<in> A\<close> y ys that show ?thesis
        unfolding strictWeakOrdering_def by blast
    qed
    with False Cons.prems(2) show ?thesis by simp
  qed
qed

lemma insertLess_foldl_sorted:
  assumes "strictWeakOrdering A less_f"
  shows "set acc \<subseteq> A \<Longrightarrow> set data \<subseteq> A \<Longrightarrow> sorted_wrt (\<lambda>u v. \<not> less_f u v) acc
    \<Longrightarrow> sorted_wrt (\<lambda>u v. \<not> less_f u v) (foldl (\<lambda>before x. insertLess less_f x before) acc data)"
proof (induction data arbitrary: acc)
  case Nil
  then show ?case by simp
next
  case (Cons x data)
  have "sorted_wrt (\<lambda>u v. \<not> less_f u v) (insertLess less_f x acc)"
    using insertLess_sorted [OF assms, of x acc] Cons.prems by simp
  moreover have "set (insertLess less_f x acc) \<subseteq> A"
    using Cons.prems by (simp add: insertLess_set)
  ultimately show ?case
    using Cons.IH [of "insertLess less_f x acc"] Cons.prems by simp
qed

lemma insertionSortLessFunc_sorted:
  assumes "strictWeakOrdering (set data) less_f"
  shows "sorted_wrt (\<lambda>x y. \<not> less_f y x) (insertionSortLessFunc less_f data)"
proof -
  have "sorted_wrt (\<lambda>u v. \<not> less_f u v) (foldl (\<lambda>before x. insertLess less_f x before) [] data)"
    using insertLess_foldl_sorted [OF assms, of "[]" data] by simp
  then show ?thesis
    by (simp add: insertionSortLessFunc_def sorted_wrt_rev)
qed

lemma insertionSortLessFunc_sortsSlices: "sortsSlices insertionSortLessFunc"
  by (simp add: sortsSlices_def insertionSortLessFunc_mset insertionSortLessFunc_sorted)




subsection \<open>The comparison\<close>


lemma sortEntries_less_parsed:
  assumes "parses time_Parse x" and "parses time_Parse y"
  shows "sortEntries_less time_Parse x y \<longleftrightarrow> instant time_Parse y < instant time_Parse x"
  using assms by (auto simp: sortEntries_less_def parses_def instant_def After_def)

lemma sortEntries_less_unparsed:
  assumes "\<not> parses time_Parse x \<or> \<not> parses time_Parse y"
  shows "sortEntries_less time_Parse x y \<longleftrightarrow> Title (Post x) < Title (Post y)"
  using assms by (auto simp: sortEntries_less_def parses_def split: option.splits)

lemma strictWeakOrdering_parsed:
  assumes "\<forall>e \<in> A. parses time_Parse e"
  shows "strictWeakOrdering A (sortEntries_less time_Parse)"
  unfolding strictWeakOrdering_def using assms
  by (auto simp: sortEntries_less_parsed)

lemma strictWeakOrdering_unparsed:
  assumes "\<forall>e \<in> A. \<not> parses time_Parse e"
  shows "strictWeakOrdering A (sortEntries_less time_Parse)"
  unfolding strictWeakOrdering_def using assms
  by (auto simp: sortEntries_less_unparsed)

subsection \<open>\<open>sort.Slice\<close> under the promise for long slices\<close>

lemma sort_Slice_mset:
  assumes "sortsSlices pdqsort"
  shows "mset (sort_Slice pdqsort less_f data) = mset data"
  using assms by (simp add: sort_Slice_def sortsSlices_def insertionSortLessFunc_mset)

lemma sort_Slice_sorted:
  assumes "sortsSlices pdqsort" and "strictWeakOrdering (set data) less_f"
  shows "sorted_wrt (\<lambda>x y. \<not> less_f y x) (sort_Slice pdqsort less_f data)"
  using assms by (simp add: sort_Slice_def sortsSlices_def insertionSortLessFunc_sorted)

lemma Entries_AddEntry:
  "Entries (AddEntry pdqsort time_Parse a post filePath downloadTime)
   = sort_Slice pdqsort (sortEntries_less time_Parse)
       (Entries a @ [\<lparr> Post = post, FilePath = filePath, DownloadTime = downloadTime \<rparr>])"
  by (simp add: AddEntry_def sortEntries_def)



subsection \<open>\<open>time.Parse\<close> with the layout \<open>time.RFC3339\<close>\<close>

text \<open>
  For this layout \<open>time.Parse\<close> first runs the strict parser \<open>parseRFC3339\<close>: four digits
  of year, two of month, day, hour, minute and second, each in its range, between the
  separators \<open>-\<close>, \<open>-\<close>, \<open>T\<close>, \<open>:\<close>, \<open>:\<close>; then an optional fraction of a second, of which
  nine digits count; then \<open>Z\<close> or an offset of hours and minutes. What the strict parser
  rejects goes to the general parser, which accepts a few more spellings of a timestamp;
  the strings rejected below do not start with a digit and are rejected by both.
\<close>

definition parseUint :: "string \<Rightarrow> int \<Rightarrow> int \<Rightarrow> int option" where
  "parseUint s lo hi =
     (if list_all isDigit s \<and> lo \<le> readDigits s \<and> readDigits s \<le> hi
      then Some (readDigits s) else None)"

definition isLeap :: "int \<Rightarrow> bool" where
  "isLeap year = (year mod 4 = 0 \<and> (year mod 100 \<noteq> 0 \<or> year mod 400 = 0))"

definition daysIn :: "int \<Rightarrow> int \<Rightarrow> int" where
  "daysIn month year =
     (if month = 2 then (if isLeap year then 29 else 28)
      else if month = 4 \<or> month = 6 \<or> month = 9 \<or> month = 11 then 30
      else 31)"

text \<open>The days from 1970-01-01 to a day of the proleptic Gregorian calendar.\<close>

definition daysSinceEpoch :: "int \<Rightarrow> int \<Rightarrow> int \<Rightarrow> int" where
  "daysSinceEpoch year month day =
     (let y = (if month \<le> 2 then year - 1 else year);
          era = y div 400;
          yoe = y - era * 400;
          doy = (153 * ((month + 9) mod 12) + 2) div 5 + day - 1;
          doe = yoe * 365 + yoe div 4 - yoe div 100 + doy
      in era * 146097 + doe - 719468)"

definition Date :: "int \<Rightarrow> int \<Rightarrow> int \<Rightarrow> int \<Rightarrow> int \<Rightarrow> int \<Rightarrow> int \<Rightarrow> int" where
  "Date year month day hour minute sec nsec =
     (((daysSinceEpoch year month day * 24 + hour) * 60 + minute) * 60 + sec) * 1000000000 + nsec"

definition fractionDigits :: "string \<Rightarrow> string" where
  "fractionDigits s =
     (case s of
        c # d # _ \<Rightarrow> if c = CHR ''.'' \<and> isDigit d then takeWhile isDigit (tl s) else []
      | _ \<Rightarrow> [])"

definition parseNanoseconds :: "string \<Rightarrow> int" where
  "parseNanoseconds digits = readDigits (take 9 (digits @ replicate 9 (CHR ''0'')))"

definition parseZone :: "string \<Rightarrow> int option" where
  "parseZone s =
     (if s = ''Z'' then Some 0
      else if length s \<noteq> 6 then None
      else
        (case parseUint (take 2 (drop 1 s)) 0 23 of
           None \<Rightarrow> None
         | Some hr \<Rightarrow>
             (case parseUint (take 2 (drop 4 s)) 0 59 of
                None \<Rightarrow> None
              | Some mm \<Rightarrow>
                  if (s ! 0 = CHR ''-'' \<or> s ! 0 = CHR ''+'') \<and> s ! 3 = CHR '':''
                  then Some (if s ! 0 = CHR ''-'' then - ((hr * 60 + mm) * 60) else (hr * 60 + mm) * 60)
                  else None)))"

definition parseRFC3339 :: "string \<Rightarrow> Time option" where
  "parseRFC3339 s =
     (if length s < 19 then None
      else
        (case parseUint (take 4 s) 0 9999 of
           None \<Rightarrow> None
         | Some year \<Rightarrow>
        (case parseUint (take 2 (drop 5 s)) 1 12 of
           None \<Rightarrow> None
         | Some month \<Rightarrow>
        (case parseUint (take 2 (drop 8 s)) 1 (daysIn month year) of
           None \<Rightarrow> None
         | Some day \<Rightarrow>
        (case parseUint (take 2 (drop 11 s)) 0 23 of
           None \<Rightarrow> None
         | Some hour \<Rightarrow>
        (case parseUint (take 2 (drop 14 s)) 0 59 of
           None \<Rightarrow> None
         | Some minute \<Rightarrow>
        (case parseUint (take 2 (drop 17 s)) 0 59 of
           None \<Rightarrow> None
         | Some sec \<Rightarrow>
             if \<not> (s ! 4 = CHR ''-'' \<and> s ! 7 = CHR ''-'' \<and> s ! 10 = CHR ''T''
                    \<and> s ! 13 = CHR '':'' \<and> s ! 16 = CHR '':'') then None
             else
               (let digits = fractionDigits (drop 19 s);
                    rest = (if digits = [] then drop 19 s else drop (20 + length digits) s)
                in case parseZone rest of
                     None \<Rightarrow> None
                   | Some offset \<Rightarrow>
                       Some \<lparr> unixNano = Date year month day hour minute sec (parseNanoseconds digits)
                                           - offset * 1000000000,
                              zoneOffset = offset \<rparr>))))))))"

subsection \<open>The archives of the tests\<close>

definition datedPost :: "string \<Rightarrow> string \<Rightarrow> Post" where
  "datedPost date title = createSamplePost\<lparr> PostDate := date, Title := title \<rparr>"

definition downloadTime0 :: Time where
  "downloadTime0 = \<lparr> unixNano = 1673352000000000000, zoneOffset = 0 \<rparr>"

lemma parseRFC3339_tests:
  "parseRFC3339 ''2023-01-01T00:00:00Z'' = Some \<lparr> unixNano = 1672531200000000000, zoneOffset = 0 \<rparr>"
  "parseRFC3339 ''2023-01-02T00:00:00Z'' = Some \<lparr> unixNano = 1672617600000000000, zoneOffset = 0 \<rparr>"
  "parseRFC3339 ''2023-01-03T00:00:00Z'' = Some \<lparr> unixNano = 1672704000000000000, zoneOffset = 0 \<rparr>"
  "parseRFC3339 ''invalid-date'' = None"
  "parseRFC3339 ''also-invalid'' = None"
  by code_simp+

text \<open>A date without a time is no timestamp of the layout.\<close>

lemma parseRFC3339_date_only: "parseRFC3339 ''2023-01-03'' = None"
  by code_simp


definition testEntry :: "string \<Rightarrow> string \<Rightarrow> string \<Rightarrow> ArchiveEntry" where
  "testEntry date title file =
     \<lparr> Post = datedPost date title, FilePath = [file], DownloadTime = downloadTime0 \<rparr>"




subsection \<open>The order in which entries are added\<close>

lemma addAll_snoc:
  "addAll pdqsort time_Parse (calls @ [(post, filePath, downloadTime)])
   = AddEntry pdqsort time_Parse (addAll pdqsort time_Parse calls) post filePath downloadTime"
  by (simp add: addAll_def)

lemma addAll_Nil: "Entries (addAll pdqsort time_Parse []) = []"
  by (simp add: addAll_def NewArchive_def)

lemma addAll_mset:
  assumes "sortsSlices pdqsort"
  shows "mset (Entries (addAll pdqsort time_Parse calls)) = mset (map entryOf calls)"
proof (induction calls rule: rev_induct)
  case Nil
  show ?case by (simp add: addAll_Nil)
next
  case (snoc call calls)
  obtain post filePath downloadTime where call: "call = (post, filePath, downloadTime)"
    by (cases call) auto
  show ?case
    unfolding call addAll_snoc Entries_AddEntry
    by (simp add: sort_Slice_mset [OF assms] snoc.IH entryOf_def)
qed

lemma addAll_sorted:
  assumes "sortsSlices pdqsort"
    and "strictWeakOrdering (set (map entryOf calls)) (sortEntries_less time_Parse)"
  shows "sorted_wrt (\<lambda>x y. \<not> sortEntries_less time_Parse y x) (Entries (addAll pdqsort time_Parse calls))"
proof (cases calls rule: rev_cases)
  case Nil
  then show ?thesis by (simp add: addAll_Nil)
next
  case (snoc before call)
  obtain post filePath downloadTime where call: "call = (post, filePath, downloadTime)"
    by (cases call) auto
  let ?data = "Entries (addAll pdqsort time_Parse before)
                 @ [\<lparr> Post = post, FilePath = filePath, DownloadTime = downloadTime \<rparr>]"
  have "mset ?data = mset (map entryOf calls)"
    unfolding snoc call by (simp add: addAll_mset [OF assms(1)] entryOf_def)
  then have "set ?data = set (map entryOf calls)"
    by (rule mset_eq_setD)
  with assms(2) have "strictWeakOrdering (set ?data) (sortEntries_less time_Parse)"
    by simp
  from sort_Slice_sorted [OF assms(1) this] show ?thesis
    unfolding snoc call addAll_snoc Entries_AddEntry .
qed

lemma sorted_by_key_unique:
  fixes key :: "'a \<Rightarrow> 'k::linorder"
  assumes "mset xs = mset ys"
    and "sorted_wrt (\<lambda>x y. key x \<le> key y) xs"
    and "sorted_wrt (\<lambda>x y. key x \<le> key y) ys"
    and "inj_on key (set xs)"
  shows "xs = ys"
proof -
  have "sorted (map key xs)" and "sorted (map key ys)"
    using assms(2,3) by (simp_all add: sorted_map)
  moreover have "mset (map key xs) = mset (map key ys)"
    using assms(1) by simp
  ultimately have "map key xs = map key ys"
    by (metis properties_for_sort)
  moreover have "set ys = set xs"
    using assms(1) by (metis mset_eq_setD)
  ultimately show ?thesis
    using assms(4) by (simp add: inj_on_map_eq_map)
qed

text \<open>
  Claim C4, as amended. Take calls of \<open>AddEntry\<close> such that either every date parses and
  no two different entries have the same instant, or no date parses and no two different
  entries have the same title. Then the entries of the archive after all the calls are the
  same in whatever order the calls are made. The algorithm of \<open>sort.Slice\<close> for more than
  12 elements is taken to sort.
\<close>

theorem AddEntry_order_independent:
  assumes "sortsSlices pdqsort"
    and "mset calls1 = mset calls2"
    and "(list_all (parses time_Parse) (map entryOf calls1)
            \<and> inj_on (instant time_Parse) (set (map entryOf calls1)))
         \<or> (list_all (\<lambda>e. \<not> parses time_Parse e) (map entryOf calls1)
            \<and> inj_on (\<lambda>e. Title (Post e)) (set (map entryOf calls1)))"
  shows "Entries (addAll pdqsort time_Parse calls1) = Entries (addAll pdqsort time_Parse calls2)"
proof -
  let ?less = "sortEntries_less time_Parse"
  let ?xs = "Entries (addAll pdqsort time_Parse calls1)"
  let ?ys = "Entries (addAll pdqsort time_Parse calls2)"
  let ?A = "set (map entryOf calls1)"
  have m1: "mset ?xs = mset (map entryOf calls1)" and m2: "mset ?ys = mset (map entryOf calls1)"
    using assms(2) by (simp_all add: addAll_mset [OF assms(1)])
  have A2: "set (map entryOf calls2) = ?A"
    using assms(2) by (metis mset_eq_setD mset_map)
  have s1: "set ?xs = ?A" and s2: "set ?ys = ?A"
    using m1 m2 by (metis mset_eq_setD)+
  from assms(3) show ?thesis
  proof
    assume h: "list_all (parses time_Parse) (map entryOf calls1)
                 \<and> inj_on (instant time_Parse) ?A"
    then have all: "\<forall>e \<in> ?A. parses time_Parse e"
      by (simp add: list_all_iff)
    have swo: "strictWeakOrdering ?A ?less"
      by (rule strictWeakOrdering_parsed [OF all])
    have o1: "sorted_wrt (\<lambda>x y. \<not> ?less y x) ?xs"
      by (rule addAll_sorted [OF assms(1) swo])
    have o2: "sorted_wrt (\<lambda>x y. \<not> ?less y x) ?ys"
      by (rule addAll_sorted [OF assms(1)]) (simp only: A2 swo)
    let ?key = "\<lambda>e. - instant time_Parse e"
    have k1: "sorted_wrt (\<lambda>x y. ?key x \<le> ?key y) ?xs"
      using o1
    proof (rule sorted_wrt_mono_rel [rotated])
      fix x y
      assume "x \<in> set ?xs" and "y \<in> set ?xs" and "\<not> ?less y x"
      with all s1 have "parses time_Parse x" and "parses time_Parse y"
        by blast+
      with \<open>\<not> ?less y x\<close> show "?key x \<le> ?key y"
        by (simp add: sortEntries_less_parsed)
    qed
    have k2: "sorted_wrt (\<lambda>x y. ?key x \<le> ?key y) ?ys"
      using o2
    proof (rule sorted_wrt_mono_rel [rotated])
      fix x y
      assume "x \<in> set ?ys" and "y \<in> set ?ys" and "\<not> ?less y x"
      with all s2 have "parses time_Parse x" and "parses time_Parse y"
        by blast+
      with \<open>\<not> ?less y x\<close> show "?key x \<le> ?key y"
        by (simp add: sortEntries_less_parsed)
    qed
    have "inj_on ?key (set ?xs)"
      using h unfolding s1 by (auto simp: inj_on_def)
    with k1 k2 m1 m2 show ?thesis
      by (intro sorted_by_key_unique [where key = ?key]) simp_all
  next
    assume h: "list_all (\<lambda>e. \<not> parses time_Parse e) (map entryOf calls1)
                 \<and> inj_on (\<lambda>e. Title (Post e)) ?A"
    then have all: "\<forall>e \<in> ?A. \<not> parses time_Parse e"
      by (simp add: list_all_iff)
    have swo: "strictWeakOrdering ?A ?less"
      by (rule strictWeakOrdering_unparsed [OF all])
    have o1: "sorted_wrt (\<lambda>x y. \<not> ?less y x) ?xs"
      by (rule addAll_sorted [OF assms(1) swo])
    have o2: "sorted_wrt (\<lambda>x y. \<not> ?less y x) ?ys"
      by (rule addAll_sorted [OF assms(1)]) (simp only: A2 swo)
    let ?key = "\<lambda>e. Title (Post e)"
    have k1: "sorted_wrt (\<lambda>x y. ?key x \<le> ?key y) ?xs"
      using o1
    proof (rule sorted_wrt_mono_rel [rotated])
      fix x y
      assume "x \<in> set ?xs" and "y \<in> set ?xs" and "\<not> ?less y x"
      with all s1 have "\<not> parses time_Parse x"
        by blast
      with \<open>\<not> ?less y x\<close> show "?key x \<le> ?key y"
        by (simp add: sortEntries_less_unparsed)
    qed
    have k2: "sorted_wrt (\<lambda>x y. ?key x \<le> ?key y) ?ys"
      using o2
    proof (rule sorted_wrt_mono_rel [rotated])
      fix x y
      assume "x \<in> set ?ys" and "y \<in> set ?ys" and "\<not> ?less y x"
      with all s2 have "\<not> parses time_Parse x"
        by blast
      with \<open>\<not> ?less y x\<close> show "?key x \<le> ?key y"
        by (simp add: sortEntries_less_unparsed)
    qed
    have "inj_on ?key (set ?xs)"
      using h unfolding s1 by simp
    with k1 k2 m1 m2 show ?thesis
      by (intro sorted_by_key_unique [where key = ?key]) simp_all
  qed
qed

definition testCall :: "string \<Rightarrow> string \<Rightarrow> string \<Rightarrow> Post \<times> path \<times> Time" where
  "testCall date title file = (datedPost date title, [file], downloadTime0)"

lemma entryOf_testCall: "entryOf (testCall date title file) = testEntry date title file"
  by (simp add: entryOf_def testCall_def testEntry_def)

lemma testEntry_fields:
  "PostDate (Post (testEntry date title file)) = date"
  "Title (Post (testEntry date title file)) = title"
  by (simp_all add: testEntry_def datedPost_def)

text \<open>
  The three dated posts of the tests added in two orders, and two posts without a date
  added in two orders.
\<close>

theorem AddEntry_order_independent_witness:
  "Entries (addAll insertionSortLessFunc parseRFC3339
      [testCall ''2023-01-02T00:00:00Z'' ''Second Post'' ''post2.html'',
       testCall ''2023-01-01T00:00:00Z'' ''First Post'' ''post1.html'',
       testCall ''2023-01-03T00:00:00Z'' ''Third Post'' ''post3.html''])
   = Entries (addAll insertionSortLessFunc parseRFC3339
      [testCall ''2023-01-03T00:00:00Z'' ''Third Post'' ''post3.html'',
       testCall ''2023-01-01T00:00:00Z'' ''First Post'' ''post1.html'',
       testCall ''2023-01-02T00:00:00Z'' ''Second Post'' ''post2.html''])
   \<and> Entries (addAll insertionSortLessFunc parseRFC3339
      [testCall ''also-invalid'' ''B Post'' ''post2.html'',
       testCall ''invalid-date'' ''A Post'' ''post1.html''])
   = Entries (addAll insertionSortLessFunc parseRFC3339
      [testCall ''invalid-date'' ''A Post'' ''post1.html'',
       testCall ''also-invalid'' ''B Post'' ''post2.html''])"
proof (rule conjI)
  show "Entries (addAll insertionSortLessFunc parseRFC3339
      [testCall ''2023-01-02T00:00:00Z'' ''Second Post'' ''post2.html'',
       testCall ''2023-01-01T00:00:00Z'' ''First Post'' ''post1.html'',
       testCall ''2023-01-03T00:00:00Z'' ''Third Post'' ''post3.html''])
   = Entries (addAll insertionSortLessFunc parseRFC3339
      [testCall ''2023-01-03T00:00:00Z'' ''Third Post'' ''post3.html'',
       testCall ''2023-01-01T00:00:00Z'' ''First Post'' ''post1.html'',
       testCall ''2023-01-02T00:00:00Z'' ''Second Post'' ''post2.html''])"
  proof (rule AddEntry_order_independent [OF insertionSortLessFunc_sortsSlices])
    show "mset [testCall ''2023-01-02T00:00:00Z'' ''Second Post'' ''post2.html'',
       testCall ''2023-01-01T00:00:00Z'' ''First Post'' ''post1.html'',
       testCall ''2023-01-03T00:00:00Z'' ''Third Post'' ''post3.html'']
      = mset [testCall ''2023-01-03T00:00:00Z'' ''Third Post'' ''post3.html'',
       testCall ''2023-01-01T00:00:00Z'' ''First Post'' ''post1.html'',
       testCall ''2023-01-02T00:00:00Z'' ''Second Post'' ''post2.html'']"
      by (simp add: add_mset_commute)
  next
    let ?calls = "[testCall ''2023-01-02T00:00:00Z'' ''Second Post'' ''post2.html'',
       testCall ''2023-01-01T00:00:00Z'' ''First Post'' ''post1.html'',
       testCall ''2023-01-03T00:00:00Z'' ''Third Post'' ''post3.html'']"
    have "list_all (parses parseRFC3339) (map entryOf ?calls)"
      by (simp add: entryOf_testCall parses_def testEntry_fields parseRFC3339_tests)
    moreover have "inj_on (instant parseRFC3339) (set (map entryOf ?calls))"
      by (auto simp: inj_on_def entryOf_testCall instant_def testEntry_fields parseRFC3339_tests)
    ultimately show "(list_all (parses parseRFC3339) (map entryOf ?calls)
            \<and> inj_on (instant parseRFC3339) (set (map entryOf ?calls)))
         \<or> (list_all (\<lambda>e. \<not> parses parseRFC3339 e) (map entryOf ?calls)
            \<and> inj_on (\<lambda>e. Title (Post e)) (set (map entryOf ?calls)))"
      by blast
  qed
next
  show "Entries (addAll insertionSortLessFunc parseRFC3339
      [testCall ''also-invalid'' ''B Post'' ''post2.html'',
       testCall ''invalid-date'' ''A Post'' ''post1.html''])
   = Entries (addAll insertionSortLessFunc parseRFC3339
      [testCall ''invalid-date'' ''A Post'' ''post1.html'',
       testCall ''also-invalid'' ''B Post'' ''post2.html''])"
  proof (rule AddEntry_order_independent [OF insertionSortLessFunc_sortsSlices])
    show "mset [testCall ''also-invalid'' ''B Post'' ''post2.html'',
       testCall ''invalid-date'' ''A Post'' ''post1.html'']
      = mset [testCall ''invalid-date'' ''A Post'' ''post1.html'',
       testCall ''also-invalid'' ''B Post'' ''post2.html'']"
      by (simp add: add_mset_commute)
  next
    let ?calls = "[testCall ''also-invalid'' ''B Post'' ''post2.html'',
       testCall ''invalid-date'' ''A Post'' ''post1.html'']"
    have "list_all (\<lambda>e. \<not> parses parseRFC3339 e) (map entryOf ?calls)"
      by (simp add: entryOf_testCall parses_def testEntry_fields parseRFC3339_tests)
    moreover have "inj_on (\<lambda>e. Title (Post e)) (set (map entryOf ?calls))"
      by (auto simp: inj_on_def entryOf_testCall testEntry_fields)
    ultimately show "(list_all (parses parseRFC3339) (map entryOf ?calls)
            \<and> inj_on (instant parseRFC3339) (set (map entryOf ?calls)))
         \<or> (list_all (\<lambda>e. \<not> parses parseRFC3339 e) (map entryOf ?calls)
            \<and> inj_on (\<lambda>e. Title (Post e)) (set (map entryOf ?calls)))"
      by blast
  qed
qed

text \<open>
  Two orders of the same three calls that end differently: the post of 1 January titled
  \<open>Alpha\<close>, the post of 2 January titled \<open>Beta\<close>, and a post titled \<open>Alphabet\<close> whose date
  does not parse. The later date puts \<open>Beta\<close> before \<open>Alpha\<close>, and the titles put \<open>Alpha\<close>
  before \<open>Alphabet\<close> and \<open>Alphabet\<close> before \<open>Beta\<close>. And two orders of the same two calls
  that end differently: two posts of the same date.
\<close>

lemma addAll_three:
  "Entries (addAll pdqsort time_Parse [(p, f, d), (p', f', d'), (p'', f'', d'')])
   = insertionSortLessFunc (sortEntries_less time_Parse)
       (insertionSortLessFunc (sortEntries_less time_Parse)
          (insertionSortLessFunc (sortEntries_less time_Parse) [entryOf (p, f, d)]
             @ [entryOf (p', f', d')])
        @ [entryOf (p'', f'', d'')])"
proof -
  have n: "length (insertionSortLessFunc less_f data) = length data" for less_f and data :: "ArchiveEntry list"
    using insertionSortLessFunc_mset [of less_f data] by (metis size_mset)
  show ?thesis
    by (simp add: addAll_def Entries_AddEntry NewArchive_def sort_Slice_def n entryOf_def)
qed

lemma addAll_two:
  "Entries (addAll pdqsort time_Parse [(p, f, d), (p', f', d')])
   = insertionSortLessFunc (sortEntries_less time_Parse)
       (insertionSortLessFunc (sortEntries_less time_Parse) [entryOf (p, f, d)]
          @ [entryOf (p', f', d')])"
proof -
  have n: "length (insertionSortLessFunc less_f data) = length data" for less_f and data :: "ArchiveEntry list"
    using insertionSortLessFunc_mset [of less_f data] by (metis size_mset)
  show ?thesis
    by (simp add: addAll_def Entries_AddEntry NewArchive_def sort_Slice_def n entryOf_def)
qed

lemma sortEntries_less_tests:
  "sortEntries_less parseRFC3339 (testEntry ''2023-01-02T00:00:00Z'' ''Beta'' f) (testEntry ''2023-01-01T00:00:00Z'' ''Alpha'' g)"
  "\<not> sortEntries_less parseRFC3339 (testEntry ''2023-01-01T00:00:00Z'' ''Alpha'' g) (testEntry ''2023-01-02T00:00:00Z'' ''Beta'' f)"
  "sortEntries_less parseRFC3339 (testEntry ''2023-01-01T00:00:00Z'' ''Alpha'' g) (testEntry ''invalid-date'' ''Alphabet'' h)"
  "\<not> sortEntries_less parseRFC3339 (testEntry ''invalid-date'' ''Alphabet'' h) (testEntry ''2023-01-01T00:00:00Z'' ''Alpha'' g)"
  "sortEntries_less parseRFC3339 (testEntry ''invalid-date'' ''Alphabet'' h) (testEntry ''2023-01-02T00:00:00Z'' ''Beta'' f)"
  "\<not> sortEntries_less parseRFC3339 (testEntry ''2023-01-02T00:00:00Z'' ''Beta'' f) (testEntry ''invalid-date'' ''Alphabet'' h)"
  "\<not> sortEntries_less parseRFC3339 (testEntry ''2023-01-01T00:00:00Z'' ''Alpha'' g) (testEntry ''2023-01-01T00:00:00Z'' ''Omega'' f)"
  "\<not> sortEntries_less parseRFC3339 (testEntry ''2023-01-01T00:00:00Z'' ''Omega'' f) (testEntry ''2023-01-01T00:00:00Z'' ''Alpha'' g)"
  by (simp_all add: sortEntries_less_def testEntry_fields parseRFC3339_tests After_def)

theorem AddEntry_order_counterexample:
  "\<forall>pdqsort.
     Entries (addAll pdqsort parseRFC3339
       [testCall ''2023-01-01T00:00:00Z'' ''Alpha'' ''alpha.html'',
        testCall ''2023-01-02T00:00:00Z'' ''Beta'' ''beta.html'',
        testCall ''invalid-date'' ''Alphabet'' ''alphabet.html''])
     = [testEntry ''2023-01-02T00:00:00Z'' ''Beta'' ''beta.html'',
        testEntry ''2023-01-01T00:00:00Z'' ''Alpha'' ''alpha.html'',
        testEntry ''invalid-date'' ''Alphabet'' ''alphabet.html'']
   \<and> Entries (addAll pdqsort parseRFC3339
       [testCall ''invalid-date'' ''Alphabet'' ''alphabet.html'',
        testCall ''2023-01-01T00:00:00Z'' ''Alpha'' ''alpha.html'',
        testCall ''2023-01-02T00:00:00Z'' ''Beta'' ''beta.html''])
     = [testEntry ''2023-01-01T00:00:00Z'' ''Alpha'' ''alpha.html'',
        testEntry ''invalid-date'' ''Alphabet'' ''alphabet.html'',
        testEntry ''2023-01-02T00:00:00Z'' ''Beta'' ''beta.html'']
   \<and> Entries (addAll pdqsort parseRFC3339
       [testCall ''2023-01-01T00:00:00Z'' ''Alpha'' ''alpha.html'',
        testCall ''2023-01-01T00:00:00Z'' ''Omega'' ''omega.html''])
     = [testEntry ''2023-01-01T00:00:00Z'' ''Alpha'' ''alpha.html'',
        testEntry ''2023-01-01T00:00:00Z'' ''Omega'' ''omega.html'']
   \<and> Entries (addAll pdqsort parseRFC3339
       [testCall ''2023-01-01T00:00:00Z'' ''Omega'' ''omega.html'',
        testCall ''2023-01-01T00:00:00Z'' ''Alpha'' ''alpha.html''])
     = [testEntry ''2023-01-01T00:00:00Z'' ''Omega'' ''omega.html'',
        testEntry ''2023-01-01T00:00:00Z'' ''Alpha'' ''alpha.html'']"
  unfolding testCall_def addAll_three addAll_two
  by (simp add: insertionSortLessFunc_def entryOf_testCall [unfolded testCall_def]
        sortEntries_less_tests)

section \<open>The worker pool of \<open>ExtractAllPosts\<close>\<close>

text \<open>
  \<open>ExtractAllPosts\<close> makes the result channel with room for one result per URL, fills a
  channel with the URLs and closes it, and starts \<open>min 10 (length urls)\<close> workers. A worker
  receives a URL, polls the context, extracts the post and sends the result, until the
  channel of URLs is empty or the poll finds the context cancelled. When every worker has
  returned, the result channel is closed.

  The goroutines interleave. A worker is at one of its four statements or has returned;
  an event is one worker executing its statement, the cancellation of the context, or the
  close of the result channel after \<open>wg.Wait\<close>. The results sent are kept in the order
  they were sent; nothing is assumed about the reader of the channel, so a send has to find
  room in the buffer.
\<close>

type_synonym ExtractResult = "Post \<times> error option"

datatype worker =
    Receiving
  | Selecting string
  | Extracting string
  | Sending ExtractResult
  | Returned

record pool =
  urlCh :: "string list"
  resultCh :: "ExtractResult list"
  capacity :: nat
  workers :: "worker list"
  cancelled :: bool
  resultClosed :: bool

datatype event = Worker nat | Cancel | Close

text \<open>The pool when the workers have been started.\<close>

definition ExtractAllPosts :: "string list \<Rightarrow> pool" where
  "ExtractAllPosts urls =
     \<lparr> urlCh = urls, resultCh = [], capacity = length urls,
       workers = replicate (min 10 (length urls)) Receiving,
       cancelled = False, resultClosed = False \<rparr>"

text \<open>
  One statement of a worker. The extraction is given the state of the context when it
  ends: \<open>extractPost c url\<close> is what \<open>e.ExtractPost(ctx, url)\<close> returns when the context is
  cancelled (\<open>c\<close>) or not. A send into a full buffer cannot be executed.
\<close>

fun workerStep :: "(bool \<Rightarrow> string \<Rightarrow> ExtractResult) \<Rightarrow> pool \<Rightarrow> worker \<Rightarrow> (worker \<times> pool) option" where
  "workerStep extractPost s Receiving =
     (case urlCh s of
        [] \<Rightarrow> Some (Returned, s)
      | url # rest \<Rightarrow> Some (Selecting url, s\<lparr> urlCh := rest \<rparr>))"
| "workerStep extractPost s (Selecting url) =
     (if cancelled s then Some (Returned, s) else Some (Extracting url, s))"
| "workerStep extractPost s (Extracting url) =
     Some (Sending (extractPost (cancelled s) url), s)"
| "workerStep extractPost s (Sending result) =
     (if length (resultCh s) < capacity s
      then Some (Receiving, s\<lparr> resultCh := resultCh s @ [result] \<rparr>)
      else None)"
| "workerStep extractPost s Returned = None"

fun step :: "(bool \<Rightarrow> string \<Rightarrow> ExtractResult) \<Rightarrow> event \<Rightarrow> pool \<Rightarrow> pool option" where
  "step extractPost (Worker i) s =
     (if i < length (workers s) then
        (case workerStep extractPost s (workers s ! i) of
           None \<Rightarrow> None
         | Some (w, s') \<Rightarrow> Some (s'\<lparr> workers := (workers s')[i := w] \<rparr>))
      else None)"
| "step extractPost Cancel s =
     (if cancelled s then None else Some (s\<lparr> cancelled := True \<rparr>))"
| "step extractPost Close s =
     (if \<not> resultClosed s \<and> list_all (\<lambda>w. w = Returned) (workers s)
      then Some (s\<lparr> resultClosed := True \<rparr>) else None)"

fun run :: "(bool \<Rightarrow> string \<Rightarrow> ExtractResult) \<Rightarrow> event list \<Rightarrow> pool \<Rightarrow> pool option" where
  "run extractPost [] s = Some s"
| "run extractPost (ev # evs) s =
     (case step extractPost ev s of None \<Rightarrow> None | Some s' \<Rightarrow> run extractPost evs s')"

subsection \<open>Every execution is finite\<close>

fun weight :: "worker \<Rightarrow> nat" where
  "weight Receiving = 1"
| "weight (Selecting url) = 4"
| "weight (Extracting url) = 3"
| "weight (Sending result) = 2"
| "weight Returned = 0"

definition remaining :: "pool \<Rightarrow> nat" where
  "remaining s =
     4 * length (urlCh s) + sum_list (map weight (workers s))
       + (if resultClosed s then 0 else 1) + (if cancelled s then 0 else 1)"

lemma sum_list_map_update:
  fixes f :: "'a \<Rightarrow> 'b::comm_monoid_add"
  shows "i < length ws \<Longrightarrow> sum_list (map f (ws[i := w])) + f (ws ! i) = sum_list (map f ws) + f w"
proof (induction ws arbitrary: i)
  case Nil
  then show ?case by simp
next
  case (Cons a ws)
  show ?case
  proof (cases i)
    case 0
    then show ?thesis by (simp add: ac_simps)
  next
    case (Suc j)
    with Cons.prems have "j < length ws" by simp
    from Cons.IH [OF this] Suc show ?thesis
      by (simp add: ac_simps)
  qed
qed

lemma workerStep_remaining:
  assumes "workerStep extractPost s w = Some (w', s')"
  shows "4 * length (urlCh s') + weight w' < 4 * length (urlCh s) + weight w"
    and "workers s' = workers s" and "resultClosed s' = resultClosed s" and "cancelled s' = cancelled s"
    and "capacity s' = capacity s"
  using assms by (cases w; auto split: list.splits if_splits)+

lemma step_remaining:
  assumes "step extractPost ev s = Some s'"
  shows "remaining s' < remaining s"
proof (cases ev)
  case (Worker i)
  with assms obtain w t where i: "i < length (workers s)"
    and w: "workerStep extractPost s (workers s ! i) = Some (w, t)"
    and s': "s' = t\<lparr> workers := (workers t)[i := w] \<rparr>"
    by (auto split: if_splits option.splits)
  note facts = workerStep_remaining [OF w]
  from sum_list_map_update [OF i, of weight w]
  have "sum_list (map weight ((workers s)[i := w])) + weight (workers s ! i)
        = sum_list (map weight (workers s)) + weight w" .
  with facts(1) show ?thesis
    unfolding remaining_def s' by (simp add: facts(2-4))
next
  case Cancel
  with assms show ?thesis
    by (auto simp: remaining_def split: if_splits)
next
  case Close
  with assms show ?thesis
    by (auto simp: remaining_def split: if_splits)
qed

lemma run_remaining:
  "run extractPost sched s = Some s' \<Longrightarrow> length sched + remaining s' \<le> remaining s"
proof (induction sched arbitrary: s)
  case Nil
  then show ?case by simp
next
  case (Cons ev sched)
  then obtain t where t: "step extractPost ev s = Some t" and r: "run extractPost sched t = Some s'"
    by (auto split: option.splits)
  from Cons.IH [OF r] step_remaining [OF t] show ?case by simp
qed

lemma run_append:
  "run extractPost (xs @ ys) s
   = (case run extractPost xs s of None \<Rightarrow> None | Some t \<Rightarrow> run extractPost ys t)"
  by (induction xs arbitrary: s) (auto split: option.splits)

lemma remaining_ExtractAllPosts:
  "remaining (ExtractAllPosts urls) = 4 * length urls + min 10 (length urls) + 2"
  by (simp add: remaining_def ExtractAllPosts_def sum_list_replicate)

subsection \<open>Room in the result channel, and no deadlock\<close>

fun occupied :: "worker \<Rightarrow> nat" where
  "occupied (Selecting url) = 1"
| "occupied (Extracting url) = 1"
| "occupied (Sending result) = 1"
| "occupied w = 0"

definition roomy :: "string list \<Rightarrow> pool \<Rightarrow> bool" where
  "roomy urls s =
     (capacity s = length urls
      \<and> length (resultCh s) + sum_list (map occupied (workers s)) + length (urlCh s) \<le> length urls
      \<and> (resultClosed s \<longrightarrow> list_all (\<lambda>w. w = Returned) (workers s)))"

lemma roomy_ExtractAllPosts: "roomy urls (ExtractAllPosts urls)"
  by (simp add: roomy_def ExtractAllPosts_def sum_list_replicate)

lemma workerStep_occupied:
  assumes "workerStep extractPost s w = Some (w', s')"
  shows "length (resultCh s') + occupied w' + length (urlCh s')
         \<le> length (resultCh s) + occupied w + length (urlCh s)"
  using assms by (cases w; auto split: list.splits if_splits)

lemma workerStep_not_Returned:
  "workerStep extractPost s w = Some (w', s') \<Longrightarrow> w \<noteq> Returned"
  by (cases w) auto

lemma step_roomy:
  assumes "step extractPost ev s = Some s'" and "roomy urls s"
  shows "roomy urls s'"
proof (cases ev)
  case (Worker i)
  with assms(1) obtain w t where i: "i < length (workers s)"
    and w: "workerStep extractPost s (workers s ! i) = Some (w, t)"
    and s': "s' = t\<lparr> workers := (workers t)[i := w] \<rparr>"
    by (auto split: if_splits option.splits)
  note facts = workerStep_remaining(2-5) [OF w]
  have "workers s ! i \<noteq> Returned"
    using workerStep_not_Returned [OF w] .
  with i have open_s: "\<not> resultClosed s"
    using assms(2) by (auto simp: roomy_def list_all_length)
  from sum_list_map_update [OF i, of occupied w] workerStep_occupied [OF w] assms(2)
  show ?thesis
    unfolding roomy_def s' using open_s by (simp add: facts)
next
  case Cancel
  with assms show ?thesis
    by (auto simp: roomy_def split: if_splits)
next
  case Close
  with assms show ?thesis
    by (auto simp: roomy_def split: if_splits)
qed

lemma run_roomy:
  "run extractPost sched s = Some s' \<Longrightarrow> roomy urls s \<Longrightarrow> roomy urls s'"
proof (induction sched arbitrary: s)
  case Nil
  then show ?case by simp
next
  case (Cons ev sched)
  then obtain t where t: "step extractPost ev s = Some t" and r: "run extractPost sched t = Some s'"
    by (auto split: option.splits)
  from Cons.IH [OF r step_roomy [OF t Cons.prems(2)]] show ?case .
qed

lemma occupied_le_sum:
  "i < length ws \<Longrightarrow> occupied (ws ! i) \<le> sum_list (map occupied ws)"
  by (simp add: member_le_sum_list)

lemma worker_enabled:
  assumes "roomy urls s" and "i < length (workers s)" and "workers s ! i \<noteq> Returned"
  shows "step extractPost (Worker i) s \<noteq> None"
proof (cases "workers s ! i")
  case (Sending result)
  with occupied_le_sum [OF assms(2)] have "1 \<le> sum_list (map occupied (workers s))"
    by simp
  with assms(1) have "length (resultCh s) < capacity s"
    by (simp add: roomy_def)
  with Sending assms(2) show ?thesis by simp
qed (use assms in \<open>auto split: list.splits\<close>)

lemma no_deadlock:
  assumes "roomy urls s" and "\<not> resultClosed s"
  shows "\<exists>ev. ev \<noteq> Cancel \<and> step extractPost ev s \<noteq> None"
proof (cases "list_all (\<lambda>w. w = Returned) (workers s)")
  case True
  with assms(2) have "step extractPost Close s \<noteq> None" by simp
  then show ?thesis by blast
next
  case False
  then obtain i where "i < length (workers s)" and "workers s ! i \<noteq> Returned"
    by (auto simp: list_all_length)
  from worker_enabled [OF assms(1) this] show ?thesis by blast
qed

lemma completes:
  assumes "roomy urls s"
  shows "\<exists>sched t. Cancel \<notin> set sched \<and> run extractPost sched s = Some t \<and> resultClosed t"
  using assms
proof (induction "remaining s" arbitrary: s rule: less_induct)
  case less
  show ?case
  proof (cases "resultClosed s")
    case True
    then have "Cancel \<notin> set [] \<and> run extractPost [] s = Some s \<and> resultClosed s"
      by simp
    then show ?thesis by blast
  next
    case False
    from no_deadlock [OF less.prems False, of extractPost]
    obtain ev s' where ev: "ev \<noteq> Cancel" and s': "step extractPost ev s = Some s'"
      by auto
    from less.hyps [OF step_remaining [OF s'] step_roomy [OF s' less.prems]]
    obtain sched t where "Cancel \<notin> set sched" and "run extractPost sched s' = Some t"
      and "resultClosed t"
      by blast
    with ev s' have "Cancel \<notin> set (ev # sched) \<and> run extractPost (ev # sched) s = Some t
                     \<and> resultClosed t"
      by simp
    then show ?thesis by blast
  qed
qed

lemma closed_no_worker:
  assumes "roomy urls s" and "resultClosed s"
  shows "step extractPost (Worker i) s = None"
proof (cases "i < length (workers s)")
  case True
  with assms have "workers s ! i = Returned"
    by (simp add: roomy_def list_all_length)
  with True show ?thesis by simp
qed simp

subsection \<open>Without cancellation every URL is accounted for\<close>

fun pending :: "(string \<Rightarrow> ExtractResult) \<Rightarrow> worker \<Rightarrow> ExtractResult multiset" where
  "pending ex (Selecting url) = {#ex url#}"
| "pending ex (Extracting url) = {#ex url#}"
| "pending ex (Sending result) = {#result#}"
| "pending ex w = {#}"

definition accounted :: "(bool \<Rightarrow> string \<Rightarrow> ExtractResult) \<Rightarrow> string list \<Rightarrow> pool \<Rightarrow> bool" where
  "accounted extractPost urls s =
     (\<not> cancelled s
      \<and> mset (resultCh s) + sum_list (map (pending (extractPost False)) (workers s))
           + mset (map (extractPost False) (urlCh s))
         = mset (map (extractPost False) urls)
      \<and> (urlCh s \<noteq> [] \<longrightarrow> Returned \<notin> set (workers s) \<and> workers s \<noteq> []))"

lemma sum_list_replicate_empty: "sum_list (replicate n ({#} :: 'a multiset)) = {#}"
  by (induction n) simp_all

lemma accounted_ExtractAllPosts: "accounted extractPost urls (ExtractAllPosts urls)"
  by (cases urls) (simp_all add: accounted_def ExtractAllPosts_def sum_list_replicate_empty)

lemma workerStep_pending:
  assumes "workerStep extractPost s w = Some (w', s')" and "\<not> cancelled s"
  shows "mset (resultCh s') + pending (extractPost False) w' + mset (map (extractPost False) (urlCh s'))
         = mset (resultCh s) + pending (extractPost False) w + mset (map (extractPost False) (urlCh s))"
    and "urlCh s' \<noteq> [] \<Longrightarrow> urlCh s \<noteq> [] \<and> w' \<noteq> Returned"
  using assms by (cases w; auto split: list.splits if_splits)+

lemma step_accounted:
  assumes "step extractPost ev s = Some s'" and "ev \<noteq> Cancel" and "accounted extractPost urls s"
  shows "accounted extractPost urls s'"
proof (cases ev)
  case (Worker i)
  with assms(1) obtain w t where i: "i < length (workers s)"
    and w: "workerStep extractPost s (workers s ! i) = Some (w, t)"
    and s': "s' = t\<lparr> workers := (workers t)[i := w] \<rparr>"
    by (auto split: if_splits option.splits)
  note facts = workerStep_remaining(2-5) [OF w]
  let ?ex = "extractPost False"
  let ?old = "workers s ! i"
  from assms(3) have nc: "\<not> cancelled s"
    and total: "mset (resultCh s) + sum_list (map (pending ?ex) (workers s))
                  + mset (map ?ex (urlCh s)) = mset (map ?ex urls)"
    and queue: "urlCh s \<noteq> [] \<Longrightarrow> Returned \<notin> set (workers s) \<and> workers s \<noteq> []"
    by (simp_all add: accounted_def)
  have upd: "sum_list (map (pending ?ex) ((workers s)[i := w])) + pending ?ex ?old
             = sum_list (map (pending ?ex) (workers s)) + pending ?ex w"
    by (rule sum_list_map_update [OF i])
  have one: "mset (resultCh t) + pending ?ex w + mset (map ?ex (urlCh t))
             = mset (resultCh s) + pending ?ex ?old + mset (map ?ex (urlCh s))"
    by (rule workerStep_pending(1) [OF w nc])
  have "(mset (resultCh t) + sum_list (map (pending ?ex) ((workers s)[i := w]))
           + mset (map ?ex (urlCh t))) + pending ?ex ?old
        = mset (resultCh t) + (sum_list (map (pending ?ex) (workers s)) + pending ?ex w)
           + mset (map ?ex (urlCh t))"
    using upd by (simp add: ac_simps)
  also have "\<dots> = (mset (resultCh t) + pending ?ex w + mset (map ?ex (urlCh t)))
                    + sum_list (map (pending ?ex) (workers s))"
    by (simp add: ac_simps)
  also have "\<dots> = (mset (resultCh s) + sum_list (map (pending ?ex) (workers s))
                      + mset (map ?ex (urlCh s))) + pending ?ex ?old"
    unfolding one by (simp add: ac_simps)
  finally have new_total:
    "mset (resultCh t) + sum_list (map (pending ?ex) ((workers s)[i := w]))
       + mset (map ?ex (urlCh t)) = mset (map ?ex urls)"
    unfolding total by simp
  have new_queue: "Returned \<notin> set ((workers s)[i := w]) \<and> (workers s)[i := w] \<noteq> []"
    if "urlCh t \<noteq> []"
  proof -
    from workerStep_pending(2) [OF w nc that] have "urlCh s \<noteq> []" and "w \<noteq> Returned"
      by simp_all
    with queue have "Returned \<notin> set (workers s)" and "workers s \<noteq> []"
      by simp_all
    with \<open>w \<noteq> Returned\<close> show ?thesis
      using set_update_subset_insert [of "workers s" i w] by auto
  qed
  show ?thesis
    unfolding accounted_def s' using nc new_total new_queue by (simp add: facts)
next
  case Cancel
  with assms(2) show ?thesis by simp
next
  case Close
  with assms show ?thesis
    by (auto simp: accounted_def split: if_splits)
qed

lemma run_accounted:
  "run extractPost sched s = Some s' \<Longrightarrow> Cancel \<notin> set sched \<Longrightarrow> accounted extractPost urls s
   \<Longrightarrow> accounted extractPost urls s'"
proof (induction sched arbitrary: s)
  case Nil
  then show ?case by simp
next
  case (Cons ev sched)
  then obtain t where t: "step extractPost ev s = Some t" and r: "run extractPost sched t = Some s'"
    by (auto split: option.splits)
  from Cons.prems(2) have "ev \<noteq> Cancel" and "Cancel \<notin> set sched"
    by auto
  from Cons.IH [OF r this(2) step_accounted [OF t this(1) Cons.prems(3)]] show ?case .
qed

lemma pending_all_Returned:
  "list_all (\<lambda>w. w = Returned) ws \<Longrightarrow> sum_list (map (pending ex) ws) = {#}"
  by (induction ws) simp_all

lemma accounted_closed:
  assumes "accounted extractPost urls s" and "roomy urls s" and "resultClosed s"
  shows "mset (resultCh s) = mset (map (extractPost False) urls)"
proof -
  from assms(2,3) have all: "list_all (\<lambda>w. w = Returned) (workers s)"
    by (simp add: roomy_def)
  have "urlCh s = []"
  proof (rule ccontr)
    assume "urlCh s \<noteq> []"
    with assms(1) have "Returned \<notin> set (workers s)" and "workers s \<noteq> []"
      by (simp_all add: accounted_def)
    with all show False
      by (cases "workers s") simp_all
  qed
  with assms(1) pending_all_Returned [OF all] show ?thesis
    by (simp add: accounted_def)
qed

text \<open>
  Claim C2. Take any list of URLs, any outcome of the extractions, and any interleaving
  in which the context is not cancelled. At most \<open>4 * K + min 10 K + 1\<close> events can
  happen. The results sent are results of the URLs, each counted once. As long as the
  result channel is open some worker can execute its statement or the channel can be
  closed, so nothing waits for ever, and the execution can always be continued to the close.
  Once the channel is closed, the results sent are exactly the results of the \<open>K\<close> URLs, an
  error result being one of them, and no worker can send another.
\<close>

theorem ExtractAllPosts_all_results:
  assumes "run extractPost sched (ExtractAllPosts urls) = Some s"
    and "Cancel \<notin> set sched"
  shows "length sched \<le> 4 * length urls + min 10 (length urls) + 1
       \<and> mset (resultCh s) \<subseteq># mset (map (extractPost False) urls)
       \<and> (\<not> resultClosed s \<longrightarrow> (\<exists>ev. ev \<noteq> Cancel \<and> step extractPost ev s \<noteq> None))
       \<and> (\<exists>more t. Cancel \<notin> set more \<and> run extractPost more s = Some t \<and> resultClosed t)
       \<and> (resultClosed s \<longrightarrow>
            mset (resultCh s) = mset (map (extractPost False) urls)
            \<and> length (resultCh s) = length urls
            \<and> (\<forall>i. step extractPost (Worker i) s = None))"
proof -
  have R: "roomy urls s"
    using run_roomy [OF assms(1) roomy_ExtractAllPosts] .
  have A: "accounted extractPost urls s"
    using run_accounted [OF assms(1,2) accounted_ExtractAllPosts] .
  from A have "remaining s \<ge> 1"
    by (simp add: accounted_def remaining_def)
  with run_remaining [OF assms(1)] have 1: "length sched \<le> 4 * length urls + min 10 (length urls) + 1"
    by (simp add: remaining_ExtractAllPosts)
  from A have "mset (resultCh s) + (sum_list (map (pending (extractPost False)) (workers s))
           + mset (map (extractPost False) (urlCh s))) = mset (map (extractPost False) urls)"
    by (simp add: accounted_def ac_simps)
  then have 2: "mset (resultCh s) \<subseteq># mset (map (extractPost False) urls)"
    by (metis mset_subset_eq_add_left)
  have 3: "\<not> resultClosed s \<longrightarrow> (\<exists>ev. ev \<noteq> Cancel \<and> step extractPost ev s \<noteq> None)"
    using no_deadlock [OF R] by blast
  have 4: "\<exists>more t. Cancel \<notin> set more \<and> run extractPost more s = Some t \<and> resultClosed t"
    by (rule completes [OF R])
  have 5: "mset (resultCh s) = mset (map (extractPost False) urls)
            \<and> length (resultCh s) = length urls
            \<and> (\<forall>i. step extractPost (Worker i) s = None)" if "resultClosed s"
  proof -
    have m: "mset (resultCh s) = mset (map (extractPost False) urls)"
      by (rule accounted_closed [OF A R that])
    then have "size (mset (resultCh s)) = size (mset (map (extractPost False) urls))"
      by simp
    then have "length (resultCh s) = length urls"
      by simp
    with m closed_no_worker [OF R that] show ?thesis by blast
  qed
  from 1 2 3 4 5 show ?thesis by blast
qed

subsection \<open>After cancellation\<close>

text \<open>
  The results that are certain once the context is cancelled: those sent, those being
  sent, and those of the extractions that are running, which end under the cancelled
  context. A URL that is still in the channel, or that a worker has received without having
  polled the context, is not among them.
\<close>

fun inflight :: "(bool \<Rightarrow> string \<Rightarrow> ExtractResult) \<Rightarrow> worker \<Rightarrow> ExtractResult multiset" where
  "inflight extractPost (Extracting url) = {#extractPost True url#}"
| "inflight extractPost (Sending result) = {#result#}"
| "inflight extractPost w = {#}"

definition settled :: "(bool \<Rightarrow> string \<Rightarrow> ExtractResult) \<Rightarrow> pool \<Rightarrow> ExtractResult multiset" where
  "settled extractPost s = mset (resultCh s) + sum_list (map (inflight extractPost) (workers s))"

fun selecting :: "worker \<Rightarrow> nat" where
  "selecting (Selecting url) = 1"
| "selecting w = 0"

lemma workerStep_inflight:
  assumes "workerStep extractPost s w = Some (w', s')" and "cancelled s"
  shows "mset (resultCh s') + inflight extractPost w' = mset (resultCh s) + inflight extractPost w"
  using assms by (cases w; auto split: list.splits if_splits)

lemma step_settled:
  assumes "step extractPost ev s = Some s'" and "cancelled s"
  shows "settled extractPost s' = settled extractPost s \<and> cancelled s'"
proof (cases ev)
  case (Worker i)
  with assms(1) obtain w t where i: "i < length (workers s)"
    and w: "workerStep extractPost s (workers s ! i) = Some (w, t)"
    and s': "s' = t\<lparr> workers := (workers t)[i := w] \<rparr>"
    by (auto split: if_splits option.splits)
  note facts = workerStep_remaining(2-5) [OF w]
  let ?f = "inflight extractPost"
  have upd: "sum_list (map ?f ((workers s)[i := w])) + ?f (workers s ! i)
             = sum_list (map ?f (workers s)) + ?f w"
    by (rule sum_list_map_update [OF i])
  have one: "mset (resultCh t) + ?f w = mset (resultCh s) + ?f (workers s ! i)"
    by (rule workerStep_inflight [OF w assms(2)])
  have "(mset (resultCh t) + sum_list (map ?f ((workers s)[i := w]))) + ?f (workers s ! i)
        = mset (resultCh t) + (sum_list (map ?f (workers s)) + ?f w)"
    using upd by (simp add: ac_simps)
  also have "\<dots> = (mset (resultCh t) + ?f w) + sum_list (map ?f (workers s))"
    by (simp add: ac_simps)
  also have "\<dots> = (mset (resultCh s) + sum_list (map ?f (workers s))) + ?f (workers s ! i)"
    unfolding one by (simp add: ac_simps)
  finally have "mset (resultCh t) + sum_list (map ?f ((workers s)[i := w]))
                = mset (resultCh s) + sum_list (map ?f (workers s))"
    by simp
  with assms(2) show ?thesis
    unfolding settled_def s' by (simp add: facts)
next
  case Cancel
  with assms show ?thesis by simp
next
  case Close
  with assms show ?thesis
    by (auto simp: settled_def split: if_splits)
qed

lemma run_settled:
  "run extractPost sched s = Some s' \<Longrightarrow> cancelled s
   \<Longrightarrow> settled extractPost s' = settled extractPost s"
proof (induction sched arbitrary: s)
  case Nil
  then show ?case by simp
next
  case (Cons ev sched)
  then obtain t where t: "step extractPost ev s = Some t" and r: "run extractPost sched t = Some s'"
    by (auto split: option.splits)
  from step_settled [OF t Cons.prems(2)] Cons.IH [OF r] show ?case by simp
qed

lemma step_prefix:
  assumes "step extractPost ev s = Some s'"
  shows "prefix (resultCh s) (resultCh s')"
proof (cases ev)
  case (Worker i)
  with assms obtain w t where w: "workerStep extractPost s (workers s ! i) = Some (w, t)"
    and s': "s' = t\<lparr> workers := (workers t)[i := w] \<rparr>"
    by (auto split: if_splits option.splits)
  from w have "prefix (resultCh s) (resultCh t)"
    by (cases "workers s ! i") (auto split: list.splits if_splits)
  then show ?thesis by (simp add: s')
qed (use assms in \<open>auto split: if_splits\<close>)

lemma run_prefix:
  "run extractPost sched s = Some s' \<Longrightarrow> prefix (resultCh s) (resultCh s')"
proof (induction sched arbitrary: s)
  case Nil
  then show ?case by simp
next
  case (Cons ev sched)
  then obtain t where t: "step extractPost ev s = Some t" and r: "run extractPost sched t = Some s'"
    by (auto split: option.splits)
  from step_prefix [OF t] Cons.IH [OF r] show ?case
    by (rule prefix_order.trans)
qed

lemma step_cancelled:
  "step extractPost ev s = Some s' \<Longrightarrow> cancelled s \<or> ev = Cancel \<Longrightarrow> cancelled s'"
proof (cases ev)
  case (Worker i)
  assume a: "step extractPost ev s = Some s'" and c: "cancelled s \<or> ev = Cancel"
  with Worker obtain w t where w: "workerStep extractPost s (workers s ! i) = Some (w, t)"
    and s': "s' = t\<lparr> workers := (workers t)[i := w] \<rparr>"
    by (auto split: if_splits option.splits)
  from workerStep_remaining(4) [OF w] c Worker show ?thesis
    by (simp add: s')
qed (auto split: if_splits)

lemma run_cancelled:
  "run extractPost sched s = Some s' \<Longrightarrow> cancelled s \<or> Cancel \<in> set sched \<Longrightarrow> cancelled s'"
proof (induction sched arbitrary: s)
  case Nil
  then show ?case by simp
next
  case (Cons ev sched)
  then obtain t where t: "step extractPost ev s = Some t" and r: "run extractPost sched t = Some s'"
    by (auto split: option.splits)
  show ?case
  proof (cases "cancelled s \<or> ev = Cancel")
    case True
    from Cons.IH [OF r] step_cancelled [OF t True] show ?thesis by simp
  next
    case False
    with Cons.prems(2) have "Cancel \<in> set sched" by auto
    with Cons.IH [OF r] show ?thesis by simp
  qed
qed

lemma inflight_all_Returned:
  "list_all (\<lambda>w. w = Returned) ws \<Longrightarrow> sum_list (map (inflight extractPost) ws) = {#}"
  by (induction ws) simp_all

lemma size_sum_list_map:
  "size (sum_list (map f ws)) = sum_list (map (\<lambda>w. size (f w :: 'b multiset)) ws)"
  by (induction ws) simp_all

lemma size_pending: "size (pending ex w) = occupied w"
  by (cases w) simp_all

lemma size_inflight: "size (inflight extractPost w) + selecting w = occupied w"
  by (cases w) simp_all

lemma sum_list_map_add:
  "sum_list (map (\<lambda>w. f w + g w) ws) = sum_list (map f ws) + (sum_list (map g ws) :: nat)"
  by (induction ws) simp_all

lemma accounted_size:
  assumes "accounted extractPost urls s"
  shows "size (settled extractPost s) + sum_list (map selecting (workers s)) + length (urlCh s)
         = length urls"
proof -
  from assms have "size (mset (resultCh s) + sum_list (map (pending (extractPost False)) (workers s))
           + mset (map (extractPost False) (urlCh s))) = size (mset (map (extractPost False) urls))"
    by (simp add: accounted_def)
  then have "length (resultCh s) + sum_list (map occupied (workers s)) + length (urlCh s) = length urls"
    by (simp add: size_sum_list_map size_pending)
  moreover have "sum_list (map occupied (workers s))
      = sum_list (map (\<lambda>w. size (inflight extractPost w)) (workers s))
        + sum_list (map selecting (workers s))"
    unfolding sum_list_map_add [symmetric] by (simp add: size_inflight)
  ultimately show ?thesis
    by (simp add: settled_def size_sum_list_map)
qed

text \<open>
  Claim C1, as amended. Let the context be cancelled at some point of an execution. Then
  the execution still cannot wait for ever and can always be continued to the close of
  the result channel, within \<open>4 * K + min 10 K + 2\<close> events. The results sent before the
  cancellation stay. The results sent in the end are those that were certain at the
  cancellation: the ones sent, the ones being sent, and those of the extractions that were
  running, as \<open>ExtractPost\<close> returns them under the cancelled context. Every URL that was
  still in the channel, or received but not yet past the poll of the context, gets no
  result at all: at the close the number of results is \<open>K\<close> less the number of those URLs.
\<close>

theorem ExtractAllPosts_cancelled:
  assumes "run extractPost before (ExtractAllPosts urls) = Some s0"
    and "step extractPost Cancel s0 = Some s1"
    and "run extractPost after s1 = Some s"
  shows "length before + length after \<le> 4 * length urls + min 10 (length urls) + 1
       \<and> prefix (resultCh s0) (resultCh s)
       \<and> mset (resultCh s) \<subseteq># settled extractPost s0
       \<and> (\<not> resultClosed s \<longrightarrow> (\<exists>ev. step extractPost ev s \<noteq> None))
       \<and> (\<exists>more t. run extractPost more s = Some t \<and> resultClosed t)
       \<and> (resultClosed s \<longrightarrow>
            mset (resultCh s) = settled extractPost s0
            \<and> length (resultCh s) + sum_list (map selecting (workers s0)) + length (urlCh s0)
                = length urls
            \<and> (\<forall>i. step extractPost (Worker i) s = None))"
proof -
  have whole: "run extractPost (before @ Cancel # after) (ExtractAllPosts urls) = Some s"
    by (simp add: run_append assms del: step.simps)
  have R0: "roomy urls s0"
    using run_roomy [OF assms(1) roomy_ExtractAllPosts] .
  have R: "roomy urls s"
    using run_roomy [OF whole roomy_ExtractAllPosts] .
  from assms(2) have nc0: "\<not> cancelled s0" and s1: "s1 = s0\<lparr> cancelled := True \<rparr>"
    by (auto split: if_splits)
  have "Cancel \<notin> set before"
    using run_cancelled [OF assms(1)] nc0 by blast
  then have A0: "accounted extractPost urls s0"
    using run_accounted [OF assms(1) _ accounted_ExtractAllPosts] by blast
  have c1: "cancelled s1" and set1: "settled extractPost s1 = settled extractPost s0"
    by (simp_all add: s1 settled_def)
  have S: "settled extractPost s = settled extractPost s0"
    using run_settled [OF assms(3) c1] set1 by simp
  from run_remaining [OF whole]
  have 1: "length before + length after \<le> 4 * length urls + min 10 (length urls) + 1"
    by (simp add: remaining_ExtractAllPosts)
  have "prefix (resultCh s0) (resultCh s1)"
    by (simp add: s1)
  from this run_prefix [OF assms(3)] have 2: "prefix (resultCh s0) (resultCh s)"
    by (rule prefix_order.trans)
  have "mset (resultCh s) \<subseteq># settled extractPost s"
    by (simp add: settled_def)
  then have 3: "mset (resultCh s) \<subseteq># settled extractPost s0"
    by (simp only: S)
  have 4: "\<not> resultClosed s \<longrightarrow> (\<exists>ev. step extractPost ev s \<noteq> None)"
    using no_deadlock [OF R] by blast
  have 5: "\<exists>more t. run extractPost more s = Some t \<and> resultClosed t"
    using completes [OF R] by blast
  have 6: "mset (resultCh s) = settled extractPost s0
            \<and> length (resultCh s) + sum_list (map selecting (workers s0)) + length (urlCh s0)
                = length urls
            \<and> (\<forall>i. step extractPost (Worker i) s = None)" if "resultClosed s"
  proof -
    from R that have all: "list_all (\<lambda>w. w = Returned) (workers s)"
      by (simp add: roomy_def)
    then have "sum_list (map (inflight extractPost) (workers s)) = {#}"
      by (rule inflight_all_Returned)
    then have "mset (resultCh s) = settled extractPost s"
      by (simp add: settled_def)
    then have m: "mset (resultCh s) = settled extractPost s0"
      by (simp only: S)
    then have "length (resultCh s) = size (settled extractPost s0)"
      by (metis size_mset)
    with accounted_size [OF A0]
    have "length (resultCh s) + sum_list (map selecting (workers s0)) + length (urlCh s0)
          = length urls"
      by simp
    with m closed_no_worker [OF R that] show ?thesis by blast
  qed
  from 1 2 3 4 5 6 show ?thesis by blast
qed

subsection \<open>Three URLs and three workers\<close>

text \<open>An extraction that fails for one URL, and fails for every URL once the context is cancelled.\<close>

definition sampleExtract :: "bool \<Rightarrow> string \<Rightarrow> ExtractResult" where
  "sampleExtract c url =
     (if c then (zeroPost, Some (FailedToFetchPage ContextCanceled))
      else if url = ''/p/missing'' then (zeroPost, Some (FailedToFetchPage (LibraryError ''404'')))
      else (zeroPost\<lparr> CanonicalUrl := url \<rparr>, None))"

definition threeURLs :: "string list" where
  "threeURLs = [''/p/first'', ''/p/missing'', ''/p/third'']"

text \<open>An interleaving of the three workers without cancellation, up to the close.\<close>

definition interleaved :: "event list" where
  "interleaved =
     [Worker 0, Worker 1, Worker 0, Worker 1, Worker 2, Worker 0, Worker 1, Worker 1,
      Worker 0, Worker 2, Worker 2, Worker 2, Worker 0, Worker 1, Worker 2, Close]"

lemma run_interleaved:
  "run extractPost interleaved (ExtractAllPosts threeURLs)
   = Some \<lparr> urlCh = [],
            resultCh = [extractPost False ''/p/missing'', extractPost False ''/p/first'',
                        extractPost False ''/p/third''],
            capacity = 3, workers = [Returned, Returned, Returned],
            cancelled = False, resultClosed = True \<rparr>"
  by (simp add: interleaved_def ExtractAllPosts_def threeURLs_def numeral_2_eq_2)

theorem ExtractAllPosts_all_results_witness:
  "\<exists>s. run sampleExtract interleaved (ExtractAllPosts threeURLs) = Some s
       \<and> resultClosed s
       \<and> resultCh s = [(zeroPost, Some (FailedToFetchPage (LibraryError ''404''))),
                       (zeroPost\<lparr> CanonicalUrl := ''/p/first'' \<rparr>, None),
                       (zeroPost\<lparr> CanonicalUrl := ''/p/third'' \<rparr>, None)]
       \<and> mset (resultCh s) = mset (map (sampleExtract False) threeURLs)
       \<and> length (resultCh s) = length threeURLs
       \<and> length interleaved \<le> 4 * length threeURLs + min 10 (length threeURLs) + 1"
proof -
  let ?s = "\<lparr> urlCh = [],
            resultCh = [sampleExtract False ''/p/missing'', sampleExtract False ''/p/first'',
                        sampleExtract False ''/p/third''],
            capacity = 3, workers = [Returned, Returned, Returned],
            cancelled = False, resultClosed = True \<rparr>"
  have r: "run sampleExtract interleaved (ExtractAllPosts threeURLs) = Some ?s"
    by (rule run_interleaved)
  have c: "Cancel \<notin> set interleaved"
    by (simp add: interleaved_def)
  have closed: "resultClosed ?s"
    by simp
  note inst = ExtractAllPosts_all_results [OF r c]
  from inst have 1: "length interleaved \<le> 4 * length threeURLs + min 10 (length threeURLs) + 1"
    by (rule conjunct1)
  from inst closed have 2: "mset (resultCh ?s) = mset (map (sampleExtract False) threeURLs)"
    and 3: "length (resultCh ?s) = length threeURLs"
    by blast+
  have 4: "resultCh ?s = [(zeroPost, Some (FailedToFetchPage (LibraryError ''404''))),
                       (zeroPost\<lparr> CanonicalUrl := ''/p/first'' \<rparr>, None),
                       (zeroPost\<lparr> CanonicalUrl := ''/p/third'' \<rparr>, None)]"
    by (simp add: sampleExtract_def)
  from r closed 1 2 3 4 show ?thesis
    by blast
qed

text \<open>
  The first worker handles the first URL; then the context is cancelled. The other two
  URLs are received and dropped at the poll, the workers return and the channel is closed
  with one result for three URLs, whatever the extraction returns.
\<close>

definition cancelledEarly :: "event list" where
  "cancelledEarly =
     [Worker 0, Worker 0, Worker 0, Worker 0, Cancel,
      Worker 1, Worker 1, Worker 0, Worker 0, Worker 2, Close]"

theorem ExtractAllPosts_cancel_counterexample:
  "\<forall>extractPost.
     run extractPost cancelledEarly (ExtractAllPosts [''/p/first'', ''/p/missing'', ''/p/third''])
     = Some \<lparr> urlCh = [], resultCh = [extractPost False ''/p/first''],
              capacity = 3, workers = [Returned, Returned, Returned],
              cancelled = True, resultClosed = True \<rparr>"
  by (simp add: cancelledEarly_def ExtractAllPosts_def numeral_2_eq_2)

text \<open>
  The first URL is handled and the extraction of the second is running when the context is
  cancelled: the second result is the one of the cancelled context, and the third URL is
  dropped.
\<close>

definition beforeCancel :: "event list" where
  "beforeCancel = [Worker 0, Worker 0, Worker 0, Worker 0, Worker 1, Worker 1]"

definition afterCancel :: "event list" where
  "afterCancel = [Worker 1, Worker 1, Worker 1, Worker 1, Worker 0, Worker 2, Close]"

definition atCancel :: pool where
  "atCancel =
     \<lparr> urlCh = [''/p/third''], resultCh = [sampleExtract False ''/p/first''], capacity = 3,
       workers = [Receiving, Extracting ''/p/missing'', Receiving],
       cancelled = False, resultClosed = False \<rparr>"

theorem ExtractAllPosts_cancelled_witness:
  "run sampleExtract beforeCancel (ExtractAllPosts threeURLs) = Some atCancel
   \<and> (\<exists>s. run sampleExtract afterCancel (atCancel\<lparr> cancelled := True \<rparr>) = Some s
          \<and> resultClosed s
          \<and> resultCh s = [(zeroPost\<lparr> CanonicalUrl := ''/p/first'' \<rparr>, None),
                          (zeroPost, Some (FailedToFetchPage ContextCanceled))]
          \<and> mset (resultCh s) = settled sampleExtract atCancel
          \<and> length (resultCh s) + sum_list (map selecting (workers atCancel))
               + length (urlCh atCancel) = length threeURLs)"
proof -
  let ?s = "\<lparr> urlCh = [],
            resultCh = [sampleExtract False ''/p/first'', sampleExtract True ''/p/missing''],
            capacity = 3, workers = [Returned, Returned, Returned],
            cancelled = True, resultClosed = True \<rparr>"
  have b: "run sampleExtract beforeCancel (ExtractAllPosts threeURLs) = Some atCancel"
    by (simp add: beforeCancel_def atCancel_def ExtractAllPosts_def threeURLs_def)
  have c: "step sampleExtract Cancel atCancel = Some (atCancel\<lparr> cancelled := True \<rparr>)"
    by (simp add: atCancel_def)
  have a: "run sampleExtract afterCancel (atCancel\<lparr> cancelled := True \<rparr>) = Some ?s"
    by (simp add: afterCancel_def atCancel_def numeral_2_eq_2)
  have closed: "resultClosed ?s"
    by simp
  note inst = ExtractAllPosts_cancelled [OF b c a]
  from inst closed have 1: "mset (resultCh ?s) = settled sampleExtract atCancel"
    and 2: "length (resultCh ?s) + sum_list (map selecting (workers atCancel))
           + length (urlCh atCancel) = length threeURLs"
    by blast+
  have 3: "resultCh ?s = [(zeroPost\<lparr> CanonicalUrl := ''/p/first'' \<rparr>, None),
                          (zeroPost, Some (FailedToFetchPage ContextCanceled))]"
    by (simp add: sampleExtract_def)
  from a b closed 1 2 3 show ?thesis
    by blast
qed

end
